theory Spec2Isabelle
  imports Complex_Main "HOL-Library.Log_Nat"
begin

unbundle bit_operations_syntax

section \<open>Python primitives used by the photo-intelligence scripts\<close>

text \<open>
  Pixel coordinates and image dimensions are Python ints, modelled as \<open>int\<close>. A Python
  float is modelled by the rational number it denotes (\<open>rat\<close>; \<open>real\<close> where a square
  root is taken). The crop dimensions are computed with the rounding of IEEE doubles
  (\<open>double_round\<close> below), since a truncation follows the rounded product there.
\<close>

datatype error = ZeroDivisionError | ValueError

text \<open>\<open>int(v)\<close> on a float truncates toward zero.\<close>

definition py_int :: "rat \<Rightarrow> int" where
  "py_int v = (if 0 \<le> v then \<lfloor>v\<rfloor> else \<lceil>v\<rceil>)"

text \<open>\<open>d.get(key, default)\<close> on an entry that may be absent.\<close>

definition dict_get :: "'a option \<Rightarrow> 'a \<Rightarrow> 'a" where
  "dict_get entry dflt = (case entry of None \<Rightarrow> dflt | Some v \<Rightarrow> v)"

text \<open>
  \<open>max(xs, key=k)\<close> on a non-empty list \<open>first # rest\<close>: the running best is replaced
  only by a strictly larger key, so the first maximal element wins.
\<close>

fun max_by :: "('a \<Rightarrow> rat) \<Rightarrow> 'a \<Rightarrow> 'a list \<Rightarrow> 'a" where
  "max_by key best [] = best"
| "max_by key best (d # ds) = max_by key (if key best < key d then d else best) ds"

text \<open>\<open>min(xs)\<close> and \<open>max(xs)\<close> on a non-empty list of ints, given as head and tail.\<close>

definition list_min :: "int \<Rightarrow> int list \<Rightarrow> int" where
  "list_min v vs = foldl min v vs"

definition list_max :: "int \<Rightarrow> int list \<Rightarrow> int" where
  "list_max v vs = foldl max v vs"

text \<open>\<open>str(n)\<close> for a non-negative int, as used by the f-string of the reason text.\<close>

fun str_nat :: "nat \<Rightarrow> string" where
  "str_nat n = (if n < 10 then [char_of (48 + n)]
                else str_nat (n div 10) @ [char_of (48 + n mod 10)])"

declare str_nat.simps [simp del]

section \<open>Rounding to a double\<close>

text \<open>
  For \<open>v > 0\<close>, the exponent \<open>e\<close> with \<open>2^e \<le> v < 2^(e + 1)\<close>, from the bit lengths
  of numerator and denominator.
\<close>

definition binary_exponent :: "rat \<Rightarrow> int" where
  "binary_exponent v =
    (let (p, q) = quotient_of v;
         d = int (floorlog 2 (nat p)) - int (floorlog 2 (nat q))
     in if 2 powi d \<le> v then d else d - 1)"

text \<open>Rounding to the nearest integer, a tie to the even one.\<close>

definition round_half_even :: "rat \<Rightarrow> int" where
  "round_half_even v =
    (let f = \<lfloor>v\<rfloor>; d = v - of_int f
     in if d < 1 / 2 then f
        else if 1 / 2 < d then f + 1
        else if even f then f else f + 1)"

text \<open>
  The double nearest to \<open>v\<close> (53 significant bits, ties to even). The exponent range is
  not bounded: overflow to infinity and gradual underflow are not modelled.
\<close>

definition double_round :: "rat \<Rightarrow> rat" where
  "double_round v =
    (if v = 0 then 0
     else (let e = binary_exponent \<bar>v\<bar> - 52
           in of_int (round_half_even (v / 2 powi e)) * 2 powi e))"

text \<open>
  \<open>a * b\<close> and \<open>a / b\<close> on floats, \<open>float(n)\<close> of an int (as the mixed operations
  convert it), and the true division \<open>m / n\<close> of two ints, which is correctly rounded.
\<close>

definition float_mul :: "rat \<Rightarrow> rat \<Rightarrow> rat" where
  "float_mul a b = double_round (a * b)"

definition float_div :: "rat \<Rightarrow> rat \<Rightarrow> rat" where
  "float_div a b = double_round (a / b)"

definition int_to_float :: "int \<Rightarrow> rat" where
  "int_to_float n = double_round (of_int n)"

definition int_true_div :: "int \<Rightarrow> int \<Rightarrow> rat" where
  "int_true_div m n = double_round (of_int m / of_int n)"

section \<open>Data model\<close>

record box =
  box_x :: int
  box_y :: int
  box_width :: int
  box_height :: int

text \<open>
  A face or person detection dict. \<open>box\<close> is always read with \<open>d["box"]\<close>; the two scores
  are read with \<open>d.get(...)\<close> and may be absent.
\<close>

record detection =
  box :: box
  confidence :: "rat option"
  quality_score :: "rat option"

record crop_result =
  crop_box :: box
  crop_confidence :: rat
  crop_method :: string
  crop_reason :: string

section \<open>Smart crop calculator (ml_services/crop_calculator.py)\<close>

text \<open>
  Lines 39-55 of \<open>calculate_smart_crop\<close>: the crop dimensions \<open>(crop_width, crop_height)\<close>.
  The two components of the aspect ratio are floats (or ints whose quotient is rounded the
  same way). Each true division raises \<open>ZeroDivisionError\<close> on a zero divisor.
\<close>

definition crop_dimensions :: "rat \<times> rat \<Rightarrow> int \<Rightarrow> int \<Rightarrow> error + (int \<times> int)" where
  "crop_dimensions aspect_ratio image_width image_height =
    (let (target_width_ratio, target_height_ratio) = aspect_ratio in
     if target_height_ratio = 0 then Inl ZeroDivisionError
     else
       let target_aspect = float_div target_width_ratio target_height_ratio in
       if image_height = 0 then Inl ZeroDivisionError
       else if int_true_div image_width image_height > target_aspect then
         (let crop_height = image_height;
              crop_width = py_int (float_mul (int_to_float crop_height) target_aspect);
              crop_width = min crop_width image_width
          in Inr (crop_width, crop_height))
       else if target_aspect = 0 then Inl ZeroDivisionError
       else
         (let crop_width = image_width;
              crop_height = py_int (float_div (int_to_float crop_width) target_aspect);
              crop_height = min crop_height image_height
          in Inr (crop_width, crop_height)))"

text \<open>The ranking key of both \<open>max(...)\<close> calls.\<close>

definition detection_key :: "detection \<Rightarrow> rat" where
  "detection_key d = dict_get (quality_score d) 0 * dict_get (confidence d) 0"

text \<open>
  Strategy 1 (lines 60-132), for \<open>faces = face0 # more_faces\<close>.
\<close>

definition face_strategy ::
  "detection \<Rightarrow> detection list \<Rightarrow> rat \<Rightarrow> int \<Rightarrow> int \<Rightarrow> int \<Rightarrow> int \<Rightarrow> crop_result" where
  "face_strategy face0 more_faces headroom_ratio image_width image_height crop_width crop_height =
    (let faces = face0 # more_faces;
         best_face = max_by detection_key face0 more_faces;
         face_box = box best_face;
         face_center_x = of_int (box_x face_box) + of_int (box_width face_box) / 2;
         face_center_y = of_int (box_y face_box) + of_int (box_height face_box) / 2;
         headroom = py_int (of_int (box_height face_box) * headroom_ratio);
         adjusted_center_y = face_center_y - of_int headroom;
         ideal_crop_x = face_center_x - of_int crop_width / 2;
         ideal_crop_y = adjusted_center_y - of_int crop_height / 2;
         (ideal_crop_x, ideal_crop_y) =
           (if length faces > 1 then
              (let min_x = list_min (box_x (box face0)) (map (\<lambda>f. box_x (box f)) more_faces);
                   max_x = list_max (box_x (box face0) + box_width (box face0))
                             (map (\<lambda>f. box_x (box f) + box_width (box f)) more_faces);
                   min_y = list_min (box_y (box face0)) (map (\<lambda>f. box_y (box f)) more_faces);
                   max_y = list_max (box_y (box face0) + box_height (box face0))
                             (map (\<lambda>f. box_y (box f) + box_height (box f)) more_faces);
                   group_center_x = of_int (min_x + max_x) / 2;
                   group_center_y = of_int (min_y + max_y) / 2
                                    - of_int (py_int (of_int (box_height face_box) * headroom_ratio))
               in (group_center_x - of_int crop_width / 2, group_center_y - of_int crop_height / 2))
            else (ideal_crop_x, ideal_crop_y));
         crop_x = max 0 (min (image_width - crop_width) (py_int ideal_crop_x));
         face_top_with_headroom = box_y face_box - headroom;
         min_crop_y_for_face = max 0 (of_int face_top_with_headroom - of_int crop_height * (1 / 10));
         face_bottom = box_y face_box + box_height face_box;
         max_crop_y_for_face = min (of_int (image_height - crop_height))
                                   (of_int face_bottom - of_int crop_height * (9 / 10));
         ideal_crop_y_int = py_int ideal_crop_y;
         crop_y = (if of_int ideal_crop_y_int < min_crop_y_for_face then py_int min_crop_y_for_face
                   else if of_int ideal_crop_y_int > max_crop_y_for_face then py_int max_crop_y_for_face
                   else ideal_crop_y_int);
         crop_y = max 0 (min (image_height - crop_height) crop_y);
         conf = dict_get (confidence best_face) 1 * dict_get (quality_score best_face) (1 / 2)
     in \<lparr>crop_box = \<lparr>box_x = crop_x, box_y = crop_y, box_width = crop_width, box_height = crop_height\<rparr>,
         crop_confidence = conf,
         crop_method = ''face'',
         crop_reason = ''Cropped around '' @ str_nat (length faces)
                       @ '' face(s), centered on highest quality face''\<rparr>)"

text \<open>
  Strategy 2 (lines 135-190), for \<open>persons = person0 # more_persons\<close>. The source also
  computes \<open>person_head_y\<close> and \<open>headroom_for_person\<close>, which it never reads.
\<close>

definition person_strategy ::
  "detection \<Rightarrow> detection list \<Rightarrow> int \<Rightarrow> int \<Rightarrow> int \<Rightarrow> int \<Rightarrow> crop_result" where
  "person_strategy person0 more_persons image_width image_height crop_width crop_height =
    (let best_person = max_by detection_key person0 more_persons;
         person_box = box best_person;
         person_center_x = of_int (box_x person_box) + of_int (box_width person_box) / 2;
         ideal_crop_x = person_center_x - of_int crop_width / 2;
         crop_x = max 0 (min (image_width - crop_width) (py_int ideal_crop_x));
         person_top = box_y person_box;
         head_target_y_in_crop = py_int (of_int crop_height * (1 / 5));
         ideal_crop_y = person_top - head_target_y_in_crop;
         crop_y = max 0 (min (image_height - crop_height) ideal_crop_y);
         crop_y = (if crop_y \<ge> person_top then
                     (let crop_y = max 0 (person_top - py_int (of_int crop_height * (1 / 20)))
                      in min crop_y (image_height - crop_height))
                   else crop_y);
         crop_y = (if \<not> (crop_y \<le> person_top \<and> person_top \<le> crop_y + crop_height) then
                     (let crop_y = max 0 (person_top - py_int (of_int crop_height * (1 / 10)))
                      in min crop_y (image_height - crop_height))
                   else crop_y);
         conf = dict_get (confidence best_person) (1 / 2) * dict_get (quality_score best_person) (1 / 2)
     in \<lparr>crop_box = \<lparr>box_x = crop_x, box_y = crop_y, box_width = crop_width, box_height = crop_height\<rparr>,
         crop_confidence = conf,
         crop_method = ''person'',
         crop_reason = ''Cropped around person (no faces detected)''\<rparr>)"

text \<open>Strategy 3 (lines 193-206): the center crop. \<open>//\<close> is floor division.\<close>

definition center_strategy :: "int \<Rightarrow> int \<Rightarrow> int \<Rightarrow> int \<Rightarrow> crop_result" where
  "center_strategy image_width image_height crop_width crop_height =
    (let crop_x = (image_width - crop_width) div 2;
         crop_y = (image_height - crop_height) div 2
     in \<lparr>crop_box = \<lparr>box_x = crop_x, box_y = crop_y, box_width = crop_width, box_height = crop_height\<rparr>,
         crop_confidence = 3 / 10,
         crop_method = ''saliency'',
         crop_reason = ''No faces or persons detected, using center crop''\<rparr>)"

text \<open>
  \<open>calculate_smart_crop\<close>: \<open>if faces:\<close> and \<open>if persons:\<close> test for a non-empty list.
  \<open>image_path\<close> is accepted and never read.
\<close>

definition calculate_smart_crop ::
  "string \<Rightarrow> rat \<times> rat \<Rightarrow> detection list \<Rightarrow> detection list \<Rightarrow> int \<Rightarrow> int \<Rightarrow> rat
     \<Rightarrow> error + crop_result" where
  "calculate_smart_crop image_path aspect_ratio faces persons image_width image_height headroom_ratio =
    (case crop_dimensions aspect_ratio image_width image_height of
       Inl e \<Rightarrow> Inl e
     | Inr (crop_width, crop_height) \<Rightarrow>
         (case faces of
            face0 # more_faces \<Rightarrow>
              Inr (face_strategy face0 more_faces headroom_ratio
                     image_width image_height crop_width crop_height)
          | [] \<Rightarrow>
              (case persons of
                 person0 # more_persons \<Rightarrow>
                   Inr (person_strategy person0 more_persons
                          image_width image_height crop_width crop_height)
               | [] \<Rightarrow> Inr (center_strategy image_width image_height crop_width crop_height))))"

text \<open>The default \<open>headroom_ratio = 0.15\<close>.\<close>

definition default_headroom_ratio :: rat where
  "default_headroom_ratio = 15 / 100"

section \<open>Perceptual hashes (ml_services/perceptual_hash.py)\<close>

text \<open>
  \<open>int(s, 16)\<close> on a string of code points below 256. Surrounding white space is
  dropped, one sign and one \<open>0x\<close>/\<open>0X\<close> prefix are accepted, single underscores may
  separate digits (one may follow the prefix), and at least one hex digit is required;
  anything else raises \<open>ValueError\<close>.
\<close>

definition py_isspace :: "char \<Rightarrow> bool" where
  "py_isspace c = (of_char c \<in> {9, 10, 11, 12, 13, 32, 133, 160 :: nat})"

definition hex_digit :: "char \<Rightarrow> nat option" where
  "hex_digit c =
    (let n = (of_char c :: nat) in
     if 48 \<le> n \<and> n \<le> 57 then Some (n - 48)
     else if 97 \<le> n \<and> n \<le> 102 then Some (n - 87)
     else if 65 \<le> n \<and> n \<le> 70 then Some (n - 55)
     else None)"

definition strip_sign :: "string \<Rightarrow> bool \<times> string" where
  "strip_sign s =
    (case s of
       [] \<Rightarrow> (False, [])
     | c # cs \<Rightarrow> if c = CHR ''+'' then (False, cs)
                else if c = CHR ''-'' then (True, cs)
                else (False, s))"

definition strip_prefix16 :: "string \<Rightarrow> string" where
  "strip_prefix16 s =
    (case s of
       c0 # c1 # cs \<Rightarrow>
         if c0 = CHR ''0'' \<and> (c1 = CHR ''x'' \<or> c1 = CHR ''X'') then
           (case cs of
              [] \<Rightarrow> []
            | u # us \<Rightarrow> if u = CHR ''_'' then us else cs)
         else s
     | _ \<Rightarrow> s)"

text \<open>
  The digit scan: accumulated value, number of digits read, whether the previous character
  was an underscore. It stops at the first character that is neither digit nor underscore
  and returns the rest; a doubled or trailing underscore is an error (\<open>None\<close>).
\<close>

fun scan_digits :: "nat \<Rightarrow> nat \<Rightarrow> bool \<Rightarrow> string \<Rightarrow> (nat \<times> nat \<times> string) option" where
  "scan_digits acc n prev_us [] = (if prev_us then None else Some (acc, n, []))"
| "scan_digits acc n prev_us (c # cs) =
    (if c = CHR ''_'' then (if prev_us then None else scan_digits acc n True cs)
     else (case hex_digit c of
             Some d \<Rightarrow> scan_digits (16 * acc + d) (Suc n) False cs
           | None \<Rightarrow> if prev_us then None else Some (acc, n, c # cs)))"

definition int_base16 :: "string \<Rightarrow> error + int" where
  "int_base16 s =
    (let s1 = dropWhile py_isspace s;
         (negative, s2) = strip_sign s1;
         s3 = strip_prefix16 s2
     in case s3 of
          [] \<Rightarrow> Inl ValueError
        | c # cs \<Rightarrow>
            if c = CHR ''_'' then Inl ValueError
            else (case scan_digits 0 0 False s3 of
                    None \<Rightarrow> Inl ValueError
                  | Some (v, n, rest) \<Rightarrow>
                      if n = 0 then Inl ValueError
                      else if dropWhile py_isspace rest \<noteq> [] then Inl ValueError
                      else Inr (if negative then - int v else int v)))"

text \<open>
  \<open>bin(v).count("1")\<close>: \<open>bin\<close> writes a sign and the binary digits of the magnitude, so
  the count is the number of one bits of \<open>|v|\<close>.
\<close>

fun bit_count :: "nat \<Rightarrow> nat" where
  "bit_count n = (if n = 0 then 0 else n mod 2 + bit_count (n div 2))"

declare bit_count.simps [simp del]

definition bin_count_ones :: "int \<Rightarrow> int" where
  "bin_count_ones v = int (bit_count (nat \<bar>v\<bar>))"

text \<open>\<open>hamming_distance\<close>: any exception of the \<open>try\<close> block yields the value 999.\<close>

definition hamming_distance :: "string \<Rightarrow> string \<Rightarrow> int" where
  "hamming_distance hash1 hash2 =
    (case int_base16 hash1 of
       Inl e \<Rightarrow> 999
     | Inr int1 \<Rightarrow>
         (case int_base16 hash2 of
            Inl e \<Rightarrow> 999
          | Inr int2 \<Rightarrow> (let xor_result = int1 XOR int2 in bin_count_ones xor_result)))"

definition are_similar :: "string \<Rightarrow> string \<Rightarrow> int \<Rightarrow> string \<Rightarrow> bool" where
  "are_similar hash1 hash2 threshold hash_type =
    (let distance = hamming_distance hash1 hash2 in distance \<le> threshold)"

text \<open>The value \<open>compute_hashes\<close> returns from its \<open>except\<close> branch.\<close>

record hashes =
  phash :: string
  dhash :: string

definition failed_hashes :: hashes where
  "failed_hashes = \<lparr>phash = [], dhash = []\<rparr>"

section \<open>Face distance (ml_services/face_embeddings.py)\<close>

text \<open>
  \<open>face_distance\<close>: the Euclidean norm of the difference of two vectors. The subtraction of
  two one-dimensional arrays needs equal lengths or one array of length one (which is
  broadcast); any other pair raises, and the \<open>except\<close> branch returns 999.0.
\<close>

definition face_distance :: "real list \<Rightarrow> real list \<Rightarrow> real" where
  "face_distance encoding1 encoding2 =
    (if length encoding1 = length encoding2 then
       sqrt (\<Sum>(a, b) \<leftarrow> zip encoding1 encoding2. (a - b)\<^sup>2)
     else if length encoding2 = 1 then sqrt (\<Sum>a \<leftarrow> encoding1. (a - hd encoding2)\<^sup>2)
     else if length encoding1 = 1 then sqrt (\<Sum>b \<leftarrow> encoding2. (hd encoding1 - b)\<^sup>2)
     else 999)"

section \<open>Photo records and clustering (pipeline.py)\<close>

text \<open>
  A face encoding, as \<open>get_face_encodings_for_photo\<close> builds it; \<open>cluster_people\<close> reads
  all of its keys by index.
\<close>

record face_encoding =
  fe_embedding :: "real list"
  fe_box :: box
  fe_confidence :: rat
  fe_quality_score :: rat

record photo_record =
  filename :: string
  filepath :: string
  width :: int
  height :: int
  hashes :: hashes
  image_embedding :: "real list"
  faces :: "detection list"
  face_encodings :: "face_encoding list"
  persons :: "detection list"
  crops :: "(string \<times> crop_result) list"
  is_monochrome :: bool

subsection \<open>Near-duplicate clustering\<close>

text \<open>
  The inner loop of \<open>cluster_near_duplicates\<close> over \<open>photo_results[i + 1:]\<close>; its state
  is the cluster being built and the set \<open>processed\<close> of filenames.
\<close>

fun near_duplicates_scan ::
  "photo_record \<Rightarrow> int \<Rightarrow> photo_record list \<Rightarrow> string list \<times> string set
     \<Rightarrow> string list \<times> string set" where
  "near_duplicates_scan photo1 hash_threshold [] (cluster, processed) = (cluster, processed)"
| "near_duplicates_scan photo1 hash_threshold (photo2 # rest) (cluster, processed) =
    (if filename photo2 \<in> processed then
       near_duplicates_scan photo1 hash_threshold rest (cluster, processed)
     else
       (let phash_dist = hamming_distance (phash (hashes photo1)) (phash (hashes photo2));
            dhash_dist = hamming_distance (dhash (hashes photo1)) (dhash (hashes photo2))
        in if phash_dist \<le> hash_threshold \<or> dhash_dist \<le> hash_threshold then
             near_duplicates_scan photo1 hash_threshold rest
               (cluster @ [filename photo2], insert (filename photo2) processed)
           else near_duplicates_scan photo1 hash_threshold rest (cluster, processed)))"

text \<open>The outer loop; the list argument is \<open>photo_results[i:]\<close>.\<close>

fun near_duplicates_loop ::
  "int \<Rightarrow> photo_record list \<Rightarrow> string list list \<times> string set \<Rightarrow> string list list" where
  "near_duplicates_loop hash_threshold [] (clusters, processed) = clusters"
| "near_duplicates_loop hash_threshold (photo1 # rest) (clusters, processed) =
    (if filename photo1 \<in> processed then
       near_duplicates_loop hash_threshold rest (clusters, processed)
     else
       (let (cluster, processed) =
              near_duplicates_scan photo1 hash_threshold rest
                ([filename photo1], insert (filename photo1) processed);
            clusters = (if length cluster > 1 then clusters @ [cluster] else clusters)
        in near_duplicates_loop hash_threshold rest (clusters, processed)))"

definition cluster_near_duplicates :: "photo_record list \<Rightarrow> int \<Rightarrow> string list list" where
  "cluster_near_duplicates photo_results hash_threshold =
    near_duplicates_loop hash_threshold photo_results ([], {})"

text \<open>
  The grouping as the specification words it: a record joins the cluster of a seed when
  its phash distance or its dhash distance to the seed is within the threshold; the first
  remaining record seeds a cluster that takes every later remaining record that joins it;
  a cluster of the seed alone is dropped.
\<close>

definition joins_seed :: "int \<Rightarrow> photo_record \<Rightarrow> photo_record \<Rightarrow> bool" where
  "joins_seed threshold seed p =
    (hamming_distance (phash (hashes seed)) (phash (hashes p)) \<le> threshold
     \<or> hamming_distance (dhash (hashes seed)) (dhash (hashes p)) \<le> threshold)"

function greedy_seed_groups :: "int \<Rightarrow> photo_record list \<Rightarrow> string list list" where
  "greedy_seed_groups threshold [] = []"
| "greedy_seed_groups threshold (seed # later) =
    (let members = filter (joins_seed threshold seed) later;
         remaining = filter (\<lambda>p. \<not> joins_seed threshold seed p) later
     in (if members = [] then [] else [map filename (seed # members)])
        @ greedy_seed_groups threshold remaining)"
  by pat_completeness auto
termination
  by (relation "measure (\<lambda>(t, ps). length ps)") (auto simp: less_Suc_eq_le)

subsection \<open>Scene clustering\<close>

text \<open>
  The grouping loop of \<open>cluster_scenes\<close>: a dict from label to filenames, kept in
  insertion order; label \<open>-1\<close> is noise.
\<close>

fun add_to_label :: "int \<Rightarrow> string \<Rightarrow> (int \<times> string list) list \<Rightarrow> (int \<times> string list) list" where
  "add_to_label label name [] = [(label, [name])]"
| "add_to_label label name ((l, names) # clusters) =
    (if l = label then (l, names @ [name]) # clusters
     else (l, names) # add_to_label label name clusters)"

fun group_by_label :: "(int \<times> string) list \<Rightarrow> (int \<times> string list) list \<Rightarrow> (int \<times> string list) list" where
  "group_by_label [] clusters = clusters"
| "group_by_label ((label, name) # rest) clusters =
    (if label \<noteq> - 1 then group_by_label rest (add_to_label label name clusters)
     else group_by_label rest clusters)"

text \<open>
  \<open>cluster_scenes\<close>. The density clustering of scikit-learn is a parameter
  \<open>dbscan eps embeddings\<close>, which returns one label for each embedding.
\<close>

definition cluster_scenes ::
  "(real \<Rightarrow> real list list \<Rightarrow> int list) \<Rightarrow> photo_record list \<Rightarrow> real \<Rightarrow> string list list" where
  "cluster_scenes dbscan photo_results similarity_threshold =
    (let valid_photos = filter (\<lambda>p. image_embedding p \<noteq> []) photo_results in
     if length valid_photos < 2 then []
     else
       (let embeddings = map image_embedding valid_photos;
            eps = 1 - similarity_threshold;
            labels = dbscan eps embeddings;
            clusters = group_by_label (zip labels (map filename valid_photos)) []
        in map snd clusters))"

subsection \<open>People clustering\<close>

record cluster_face =
  cf_filename :: string
  cf_embedding :: "real list"
  cf_box :: box
  cf_quality_score :: rat
  cf_confidence :: rat

record person_cluster =
  person_id :: nat
  photo_filenames :: "string list"
  cluster_faces :: "cluster_face list"
  representative_face :: cluster_face

text \<open>
  The inner loop of \<open>cluster_people\<close> over \<open>all_faces[i + 1:]\<close> with its index \<open>j\<close>;
  \<open>processed\<close> is a set of indices.
\<close>

fun people_scan ::
  "real \<Rightarrow> cluster_face \<Rightarrow> nat \<Rightarrow> cluster_face list \<Rightarrow> person_cluster \<times> nat set
     \<Rightarrow> person_cluster \<times> nat set" where
  "people_scan face_distance_threshold face1 j [] (cluster, processed) = (cluster, processed)"
| "people_scan face_distance_threshold face1 j (face2 # rest) (cluster, processed) =
    (if j \<in> processed then
       people_scan face_distance_threshold face1 (Suc j) rest (cluster, processed)
     else
       (let distance = face_distance (cf_embedding face1) (cf_embedding face2) in
        if distance \<le> face_distance_threshold then
          (let cluster = cluster\<lparr>photo_filenames := photo_filenames cluster @ [cf_filename face2]\<rparr>;
               cluster = cluster\<lparr>cluster_faces := cluster_faces cluster @ [face2]\<rparr>;
               processed = insert j processed;
               cluster = (if cf_quality_score face2 > cf_quality_score (representative_face cluster)
                          then cluster\<lparr>representative_face := face2\<rparr> else cluster)
           in people_scan face_distance_threshold face1 (Suc j) rest (cluster, processed))
        else people_scan face_distance_threshold face1 (Suc j) rest (cluster, processed)))"

fun people_loop ::
  "real \<Rightarrow> nat \<Rightarrow> cluster_face list \<Rightarrow> person_cluster list \<times> nat set \<Rightarrow> person_cluster list" where
  "people_loop face_distance_threshold i [] (clusters, processed) = clusters"
| "people_loop face_distance_threshold i (face1 # rest) (clusters, processed) =
    (if i \<in> processed then
       people_loop face_distance_threshold (Suc i) rest (clusters, processed)
     else
       (let cluster = \<lparr>person_id = length clusters, photo_filenames = [cf_filename face1],
                       cluster_faces = [face1], representative_face = face1\<rparr>;
            processed = insert i processed;
            (cluster, processed) =
              people_scan face_distance_threshold face1 (Suc i) rest (cluster, processed);
            clusters = (if length (cluster_faces cluster) > 1 then clusters @ [cluster]
                        else clusters)
        in people_loop face_distance_threshold (Suc i) rest (clusters, processed)))"

definition collect_faces :: "photo_record list \<Rightarrow> cluster_face list" where
  "collect_faces photo_results =
    concat (map (\<lambda>photo.
      map (\<lambda>face_encoding.
             \<lparr>cf_filename = filename photo,
              cf_embedding = fe_embedding face_encoding,
              cf_box = fe_box face_encoding,
              cf_quality_score = fe_quality_score face_encoding,
              cf_confidence = fe_confidence face_encoding\<rparr>)
          (face_encodings photo)) photo_results)"

definition cluster_people :: "photo_record list \<Rightarrow> real \<Rightarrow> person_cluster list" where
  "cluster_people photo_results face_distance_threshold =
    (let all_faces = collect_faces photo_results in
     if length all_faces < 2 then []
     else people_loop face_distance_threshold 0 all_faces ([], {}))"

section \<open>Feature extraction and the batch loop (pipeline.py)\<close>

text \<open>
  The detectors, the hasher, the embedder and the image library are external; they are the
  fields of \<open>collaborators\<close>. \<open>image_size\<close> and \<open>monochrome\<close> are \<open>None\<close> where
  \<open>Image.open\<close> raises (they have no \<open>try\<close> of their own); the other five catch their
  own exceptions and always return a value.
\<close>

record collaborators =
  image_size :: "string \<Rightarrow> (int \<times> int) option"
  detect_faces :: "string \<Rightarrow> detection list"
  detect_persons :: "string \<Rightarrow> detection list"
  compute_hashes :: "string \<Rightarrow> hashes"
  get_image_embedding :: "string \<Rightarrow> real list"
  get_face_encodings_for_photo :: "string \<Rightarrow> face_encoding list"
  monochrome :: "string \<Rightarrow> bool option"

definition ASPECT_RATIOS :: "(nat \<times> nat) list" where
  "ASPECT_RATIOS = [(4, 5), (16, 9), (1, 1)]"

text \<open>\<open>os.path.basename\<close>: the part after the last slash.\<close>

definition basename :: "string \<Rightarrow> string" where
  "basename path = rev (takeWhile (\<lambda>c. c \<noteq> CHR ''/'') (rev path))"

text \<open>
  Step 6 of \<open>process_photo\<close>: one crop for each aspect ratio, under the key
  \<open>f"{w}:{h}"\<close>; an exception of the calculator leaves the loop.
\<close>

fun smart_crops ::
  "string \<Rightarrow> detection list \<Rightarrow> detection list \<Rightarrow> int \<Rightarrow> int \<Rightarrow> (nat \<times> nat) list
     \<Rightarrow> error + (string \<times> crop_result) list" where
  "smart_crops image_path fs ps w h [] = Inr []"
| "smart_crops image_path fs ps w h ((rw, rh) # ratios) =
    (case calculate_smart_crop image_path (of_nat rw, of_nat rh) fs ps w h default_headroom_ratio of
       Inl e \<Rightarrow> Inl e
     | Inr crop_result \<Rightarrow>
         (case smart_crops image_path fs ps w h ratios of
            Inl e \<Rightarrow> Inl e
          | Inr rest \<Rightarrow> Inr ((str_nat rw @ '':'' @ str_nat rh, crop_result) # rest)))"

text \<open>
  A detection copied into the result is read with \<open>f["confidence"]\<close> and
  \<open>f["quality_score"]\<close>, which raise \<open>KeyError\<close> on an absent key.
\<close>

definition has_scores :: "detection \<Rightarrow> bool" where
  "has_scores d = (confidence d \<noteq> None \<and> quality_score d \<noteq> None)"

text \<open>
  \<open>process_photo\<close>: \<open>None\<close> is the \<open>except\<close> branch. The record's \<open>filepath\<close> is the
  path it was called with.
\<close>

definition process_photo :: "collaborators \<Rightarrow> string \<Rightarrow> photo_record option" where
  "process_photo env image_path =
    (case image_size env image_path of
       None \<Rightarrow> None
     | Some (w, h) \<Rightarrow>
         (let fname = basename image_path;
              fs = detect_faces env image_path;
              ps = (if length fs = 0 \<or> length fs > 3 then detect_persons env image_path else []);
              hs = compute_hashes env image_path;
              emb = get_image_embedding env image_path;
              encs = get_face_encodings_for_photo env image_path
          in case smart_crops image_path fs ps w h ASPECT_RATIOS of
               Inl e \<Rightarrow> None
             | Inr cs \<Rightarrow>
                 (case monochrome env image_path of
                    None \<Rightarrow> None
                  | Some is_mono \<Rightarrow>
                      if list_all has_scores fs \<and> list_all has_scores ps then
                        Some \<lparr>filename = fname, filepath = image_path, width = w, height = h,
                              hashes = hs, image_embedding = emb, faces = fs,
                              face_encodings = encs, persons = ps, crops = cs,
                              is_monochrome = is_mono\<rparr>
                      else None)))"

text \<open>
  The two containers of \<open>main\<close> that make up a checkpoint (the time stamp is not
  modelled; \<open>total_processed\<close> is the length of \<open>results\<close>).
\<close>

record checkpoint =
  processed_files :: "string set"
  results :: "photo_record list"

definition empty_checkpoint :: checkpoint where
  "empty_checkpoint = \<lparr>processed_files = {}, results = []\<rparr>"

text \<open>
  The loop over one batch (lines 482-486): its state is \<open>batch_results\<close> and
  \<open>processed_files\<close>. A record is a non-empty dict, so \<open>if result:\<close> tests for a
  result other than \<open>None\<close>.
\<close>

fun process_batch ::
  "collaborators \<Rightarrow> string list \<Rightarrow> photo_record list \<times> string set
     \<Rightarrow> photo_record list \<times> string set" where
  "process_batch env [] (batch_results, processed) = (batch_results, processed)"
| "process_batch env (image_path # rest) (batch_results, processed) =
    (case process_photo env image_path of
       Some result \<Rightarrow>
         process_batch env rest (batch_results @ [result], insert image_path processed)
     | None \<Rightarrow> process_batch env rest (batch_results, processed))"

text \<open>
  The loop over the batches (lines 473-498), for a positive batch size; the list argument
  is \<open>image_files[i:]\<close>. It returns the final state and the checkpoints written, oldest
  first.
\<close>

function batch_loop ::
  "collaborators \<Rightarrow> nat \<Rightarrow> string list \<Rightarrow> checkpoint \<Rightarrow> checkpoint list
     \<Rightarrow> checkpoint \<times> checkpoint list" where
  "batch_loop env batch_size image_files st written =
    (if image_files = [] \<or> batch_size = 0 then (st, written)
     else
       (let batch = take batch_size image_files;
            later = drop batch_size image_files;
            batch = filter (\<lambda>f. f \<notin> processed_files st) batch
        in if batch = [] then batch_loop env batch_size later st written
           else
             (let (batch_results, processed) = process_batch env batch ([], processed_files st);
                  all_results = results st @ batch_results;
                  st = \<lparr>processed_files = processed, results = all_results\<rparr>
              in batch_loop env batch_size later st (written @ [st]))))"
  by pat_completeness auto
termination
  by (relation "measure (\<lambda>(env, n, fs, st, ws). length fs)") auto

text \<open>
  The batch part of \<open>main\<close>: \<open>total_batches\<close> divides by the batch size, and a range
  with a negative step is empty.
\<close>

definition run_batches ::
  "collaborators \<Rightarrow> int \<Rightarrow> string list \<Rightarrow> checkpoint \<Rightarrow> error + (checkpoint \<times> checkpoint list)" where
  "run_batches env batch_size image_files st =
    (if batch_size = 0 then Inl ZeroDivisionError
     else if batch_size < 0 then Inr (st, [])
     else Inr (batch_loop env (nat batch_size) image_files st []))"

text \<open>
  Lock-step of a checkpoint: the paths of the records are pairwise distinct, and they are
  exactly the processed files.
\<close>

definition lock_step :: "checkpoint \<Rightarrow> bool" where
  "lock_step st =
    (distinct (map filepath (results st))
     \<and> set (map filepath (results st)) = processed_files st)"

section \<open>Sample records\<close>

text \<open>
  A photo record with the given filename, hashes, image embedding and face encodings, for
  the concrete instances below; the remaining fields are those of a 1920 by 1080 colour
  photo without detections.
\<close>

definition sample_photo ::
  "string \<Rightarrow> string \<Rightarrow> string \<Rightarrow> real list \<Rightarrow> face_encoding list \<Rightarrow> photo_record" where
  "sample_photo name ph dh emb encs =
    \<lparr>filename = name, filepath = ''photos/'' @ name, width = 1920, height = 1080,
     hashes = \<lparr>phash = ph, dhash = dh\<rparr>, image_embedding = emb, faces = [],
     face_encodings = encs, persons = [], crops = [], is_monochrome = False\<rparr>"

definition sample_encoding :: "real list \<Rightarrow> rat \<Rightarrow> face_encoding" where
  "sample_encoding emb quality =
    \<lparr>fe_embedding = emb,
     fe_box = \<lparr>box_x = 100, box_y = 100, box_width = 200, box_height = 200\<rparr>,
     fe_confidence = 1, fe_quality_score = quality\<rparr>"

text \<open>
  Two photos with three face encodings: the first face of \<open>a.jpg\<close> and the face of
  \<open>b.jpg\<close> have the same embedding, the second face of \<open>a.jpg\<close> is at distance 5.
\<close>

definition sample_people_photos :: "photo_record list" where
  "sample_people_photos =
    [sample_photo ''a.jpg'' ''00'' ''00'' []
       [sample_encoding [0, 1] (1 / 2), sample_encoding [3, 5] (9 / 10)],
     sample_photo ''b.jpg'' ''00'' ''00'' [] [sample_encoding [0, 1] (7 / 10)]]"

text \<open>
  Collaborators for a run in which every photo is a 1920 by 1080 colour image without
  detections, except that \<open>bad.jpg\<close> cannot be opened.
\<close>

definition sample_env :: collaborators where
  "sample_env =
    \<lparr>image_size = (\<lambda>p. if p = ''bad.jpg'' then None else Some (1920, 1080)),
     detect_faces = (\<lambda>p. []),
     detect_persons = (\<lambda>p. []),
     compute_hashes = (\<lambda>p. \<lparr>phash = ''8f37c1e0a5b2d694'', dhash = ''00ff00ff00ff00ff''\<rparr>),
     get_image_embedding = (\<lambda>p. []),
     get_face_encodings_for_photo = (\<lambda>p. []),
     monochrome = (\<lambda>p. Some False)\<rparr>"

text \<open>
  Three photos for the near-duplicate scenario: the hashes of the first two differ in two
  bits, the hashes of the third differ from each of them in forty bits.
\<close>

definition near_photo_a :: photo_record where
  "near_photo_a = sample_photo ''a.jpg'' ''0000000000000000'' ''0000000000000000'' [] []"

definition near_photo_b :: photo_record where
  "near_photo_b = sample_photo ''b.jpg'' ''0000000000000003'' ''0000000000000003'' [] []"

definition distinct_photo_c :: photo_record where
  "distinct_photo_c = sample_photo ''c.jpg'' ''000001fffffffffd'' ''000001fffffffffd'' [] []"

text \<open>
  Two faces at the left and right edges of a 3000 by 2000 photo; the left one has the
  higher \<open>quality_score * confidence\<close>.
\<close>

definition left_face :: detection where
  "left_face = \<lparr>box = \<lparr>box_x = 100, box_y = 800, box_width = 200, box_height = 200\<rparr>,
                 confidence = Some 1, quality_score = Some (9 / 10)\<rparr>"

definition right_face :: detection where
  "right_face = \<lparr>box = \<lparr>box_x = 2700, box_y = 800, box_width = 200, box_height = 200\<rparr>,
                  confidence = Some 1, quality_score = Some (1 / 2)\<rparr>"

text \<open>A face as wide and as high as the square crop of a 100 by 1000 photo.\<close>

definition tall_face :: detection where
  "tall_face = \<lparr>box = \<lparr>box_x = 0, box_y = 400, box_width = 100, box_height = 100\<rparr>,
                 confidence = Some 1, quality_score = Some 1\<rparr>"

text \<open>A face in the upper middle of a 1920 by 1080 photo.\<close>

definition middle_face :: detection where
  "middle_face = \<lparr>box = \<lparr>box_x = 900, box_y = 300, box_width = 200, box_height = 200\<rparr>,
                   confidence = Some 1, quality_score = Some (1 / 2)\<rparr>"

section \<open>Properties of the rounding to a double\<close>

lemma bit_length_bounds:
  fixes n :: int
  assumes "0 < n"
  shows "(2::rat) ^ (floorlog 2 (nat n) - 1) \<le> of_int n"
    and "of_int n < (2::rat) ^ floorlog 2 (nat n)"
    and "0 < floorlog 2 (nat n)"
proof -
  have pos: "0 < nat n" using assms by simp
  from floorlog_bounds [OF pos, of 2]
  have b: "2 ^ (floorlog 2 (nat n) - 1) \<le> nat n" "nat n < 2 ^ floorlog 2 (nat n)"
    by simp_all
  have n: "(of_int n :: rat) = of_nat (nat n)" using assms by simp
  show "(2::rat) ^ (floorlog 2 (nat n) - 1) \<le> of_int n"
    unfolding n using b(1) by (metis of_nat_le_iff of_nat_numeral of_nat_power)
  show "of_int n < (2::rat) ^ floorlog 2 (nat n)"
    unfolding n using b(2) by (metis of_nat_less_iff of_nat_numeral of_nat_power)
  show "0 < floorlog 2 (nat n)"
    using pos by (simp add: floorlog_def)
qed

lemma binary_exponent_bounds:
  assumes "0 < v"
  shows "2 powi (binary_exponent v) \<le> v" and "v < 2 powi (binary_exponent v + 1)"
proof -
  obtain p q where pq: "quotient_of v = (p, q)" by (cases "quotient_of v") blast
  have q: "0 < q" using pq by (rule quotient_of_denom_pos)
  have v: "v = of_int p / of_int q" using pq by (rule quotient_of_div)
  have p: "0 < p" using assms q unfolding v by (simp add: zero_less_divide_iff)
  define bp where "bp = floorlog 2 (nat p)"
  define bq where "bq = floorlog 2 (nat q)"
  define d where "d = int bp - int bq"
  note P = bit_length_bounds [OF p, folded bp_def]
  note Q = bit_length_bounds [OF q, folded bq_def]
  have qpos: "(0::rat) < of_int q" using q by simp
  have up: "v < 2 powi (d + 1)"
  proof -
    have "v < 2 ^ bp / 2 ^ (bq - 1)"
      unfolding v using P(2) Q(1) p q
      by (intro frac_less) simp_all
    also have "\<dots> = 2 powi (int bp - int (bq - 1))"
      by (simp add: power_int_diff)
    also have "int bp - int (bq - 1) = d + 1"
      using Q(3) by (simp add: d_def)
    finally show ?thesis .
  qed
  have low: "2 powi (d - 1) \<le> v"
  proof -
    have "d - 1 = int (bp - 1) - int bq"
      using P(3) by (simp add: d_def of_nat_diff)
    then have "(2::rat) powi (d - 1) = 2 powi (int (bp - 1) - int bq)"
      by (rule arg_cong)
    also have "\<dots> = 2 ^ (bp - 1) / 2 ^ bq"
      by (simp add: power_int_diff)
    also have "\<dots> \<le> v"
      unfolding v using P(1) Q(2) p q
      by (intro frac_le) simp_all
    finally show ?thesis .
  qed
  have be: "binary_exponent v = (if 2 powi d \<le> v then d else d - 1)"
    by (simp add: binary_exponent_def pq Let_def d_def bp_def bq_def)
  show "2 powi (binary_exponent v) \<le> v"
    using low by (simp add: be)
  show "v < 2 powi (binary_exponent v + 1)"
    using up by (simp add: be)
qed

lemma power_int_2_less_D:
  assumes "(2::rat) powi a < 2 powi b"
  shows "a < b"
proof (rule ccontr)
  assume "\<not> a < b"
  then have "b \<le> a" by simp
  from power_int_increasing [OF this, of "2::rat"] have "(2::rat) powi b \<le> 2 powi a" by simp
  with assms show False by simp
qed

lemma binary_exponent_unique:
  assumes "0 < v" "2 powi e \<le> v" "v < 2 powi (e + 1)"
  shows "binary_exponent v = e"
proof -
  let ?b = "binary_exponent v"
  have "(2::rat) powi ?b < 2 powi (e + 1)"
    using binary_exponent_bounds(1) [OF assms(1)] assms(3) by simp
  then have 1: "?b < e + 1" by (rule power_int_2_less_D)
  have "(2::rat) powi e < 2 powi (?b + 1)"
    using binary_exponent_bounds(2) [OF assms(1)] assms(2) by simp
  then have 2: "e < ?b + 1" by (rule power_int_2_less_D)
  show ?thesis using 1 2 by simp
qed

lemma round_half_even_error: "\<bar>of_int (round_half_even v) - v\<bar> \<le> 1 / 2"
proof -
  have "of_int \<lfloor>v\<rfloor> \<le> v" "v < of_int \<lfloor>v\<rfloor> + 1" by linarith+
  then show ?thesis
    by (auto simp: round_half_even_def Let_def abs_le_iff)
qed


lemma round_half_even_eqI:
  assumes "of_int m - 1 / 2 < v" "v < of_int m + 1 / 2"
  shows "round_half_even v = m"
proof -
  define f where "f = \<lfloor>v\<rfloor>"
  have fl: "of_int f \<le> v" "v < of_int f + 1"
    unfolding f_def by linarith+
  consider (lo) "v - of_int f < 1 / 2" | (hi) "1 / 2 < v - of_int f" | (tie) "v - of_int f = 1 / 2"
    by linarith
  then show ?thesis
  proof cases
    case lo
    have "(of_int m :: rat) < of_int (f + 1)" "(of_int f :: rat) < of_int (m + 1)"
      using assms lo fl by simp_all
    then have "m < f + 1" "f < m + 1" by (simp_all only: of_int_less_iff)
    then have "f = m" by simp
    then show ?thesis using lo by (simp add: round_half_even_def Let_def f_def)
  next
    case hi
    have "(of_int f :: rat) < of_int m" "(of_int m :: rat) < of_int (f + 2)"
      using assms hi fl by simp_all
    then have "f < m" "m < f + 2" by (simp_all only: of_int_less_iff)
    then have "f + 1 = m" by simp
    then show ?thesis using hi by (simp add: round_half_even_def Let_def f_def)
  next
    case tie
    have "(of_int (m - 1) :: rat) < of_int f" "(of_int f :: rat) < of_int m"
      using assms tie by simp_all
    then have "m - 1 < f" "f < m" by (simp_all only: of_int_less_iff)
    then show ?thesis by simp
  qed
qed

lemma double_round_eqI:
  assumes "0 < v" "2 powi (e + 52) \<le> v" "v < 2 powi (e + 53)"
    and "round_half_even (v / 2 powi e) = m"
  shows "double_round v = of_int m * 2 powi e"
proof -
  have "binary_exponent \<bar>v\<bar> = e + 52"
    using assms(1-3) by (intro binary_exponent_unique) (simp_all add: add.assoc)
  then show ?thesis
    using assms(1,4) by (simp add: double_round_def)
qed

text \<open>The relative error of one rounding is at most \<open>2^-53\<close>.\<close>

lemma double_round_error: "\<bar>double_round v - v\<bar> \<le> \<bar>v\<bar> / 2 ^ 53"
proof (cases "v = 0")
  case True
  then show ?thesis by (simp add: double_round_def)
next
  case False
  define b where "b = binary_exponent \<bar>v\<bar>"
  define s :: rat where "s = 2 powi (b - 52)"
  define m where "m = round_half_even (v / s)"
  have a: "0 < \<bar>v\<bar>" using False by simp
  have s: "0 < s" by (simp add: s_def)
  have dr: "double_round v = of_int m * s"
    using False by (simp add: double_round_def Let_def b_def s_def m_def)
  have "\<bar>of_int m * s - v\<bar> = \<bar>of_int m - v / s\<bar> * s"
  proof -
    have "of_int m * s - v = (of_int m - v / s) * s" using s by (simp add: field_simps)
    then show ?thesis using s by (simp add: abs_mult)
  qed
  also have "\<dots> \<le> (1 / 2) * s"
    using round_half_even_error [of "v / s"] s unfolding m_def
    by (intro mult_right_mono) simp_all
  also have "\<dots> \<le> \<bar>v\<bar> / 2 ^ 53"
  proof -
    have "2 powi b = s * 2 ^ 52"
    proof -
      have "(2::rat) powi b = 2 powi ((b - 52) + 52)" by simp
      also have "\<dots> = 2 powi (b - 52) * 2 powi 52" by (rule power_int_add) simp
      finally show ?thesis by (simp add: s_def)
    qed
    then have "s * 2 ^ 52 \<le> \<bar>v\<bar>"
      using binary_exponent_bounds(1) [OF a] by (simp add: b_def)
    then show ?thesis by simp
  qed
  finally show ?thesis by (simp add: dr)
qed

lemma double_round_bounds:
  assumes "0 < v"
  shows "v * (1 - 1 / 2 ^ 53) \<le> double_round v" and "double_round v \<le> v * (1 + 1 / 2 ^ 53)"
    and "0 < double_round v"
proof -
  have "\<bar>double_round v - v\<bar> \<le> v / 2 ^ 53"
    using double_round_error [of v] assms by simp
  then have e: "double_round v - v \<le> v / 2 ^ 53" "- (v / 2 ^ 53) \<le> double_round v - v"
    by linarith+
  have eq: "v * (1 - 1 / 2 ^ 53) = v - v / 2 ^ 53" "v * (1 + 1 / 2 ^ 53) = v + v / 2 ^ 53"
    by (simp_all add: algebra_simps)
  show 1: "v * (1 - 1 / 2 ^ 53) \<le> double_round v"
    unfolding eq using e by linarith
  show "double_round v \<le> v * (1 + 1 / 2 ^ 53)"
    unfolding eq using e by linarith
  have "0 < v * (1 - 1 / 2 ^ 53)" using assms by simp
  then show "0 < double_round v" using 1 by linarith
qed


text \<open>A form of the rule for concrete values: the scale \<open>s = 2^e\<close> is given as a number.\<close>

lemma double_round_scaleI:
  assumes "0 < v" "2 powi e = s" "s * 2 ^ 52 \<le> v" "v < s * 2 ^ 53"
    and "of_int m - 1 / 2 < v / s" "v / s < of_int m + 1 / 2"
  shows "double_round v = of_int m * s"
proof -
  have a: "(2::rat) powi (e + 52) = s * 2 ^ 52"
    using power_int_add [of "2::rat" e 52] assms(2) by simp
  have b: "(2::rat) powi (e + 53) = s * 2 ^ 53"
    using power_int_add [of "2::rat" e 53] assms(2) by simp
  have r: "round_half_even (v / 2 powi e) = m"
    unfolding assms(2) using assms(5,6) by (rule round_half_even_eqI)
  show ?thesis
    using double_round_eqI [OF assms(1) _ _ r] assms(3,4) unfolding a b assms(2) by simp
qed

text \<open>The doubles of the concrete instances below.\<close>

lemma double_7_5: "double_round (7 / 5) = 3152519739159347 / 2251799813685248"
proof -
  have s: "(2::rat) powi (- 52) = 1 / 4503599627370496"
    by (simp add: power_int_minus_divide)
  have "double_round (7 / 5) = of_int 6305039478318694 * (1 / 4503599627370496)"
    by (rule double_round_scaleI [OF _ s]) simp_all
  then show ?thesis by simp
qed

lemma double_16_9: "double_round (16 / 9) = 2001599834386887 / 1125899906842624"
proof -
  have s: "(2::rat) powi (- 52) = 1 / 4503599627370496"
    by (simp add: power_int_minus_divide)
  have "double_round (16 / 9) = of_int 8006399337547548 * (1 / 4503599627370496)"
    by (rule double_round_scaleI [OF _ s]) simp_all
  then show ?thesis by simp
qed

lemma double_720: "double_round (720) = 720"
proof -
  have s: "(2::rat) powi (- 43) = 1 / 8796093022208"
    by (simp add: power_int_minus_divide)
  have "double_round (720) = of_int 6333186975989760 * (1 / 8796093022208)"
    by (rule double_round_scaleI [OF _ s]) simp_all
  then show ?thesis by simp
qed

lemma double_720_times_7_5: "double_round (141863388262170615 / 140737488355328) = 8866461766385663 / 8796093022208"
proof -
  have s: "(2::rat) powi (- 43) = 1 / 8796093022208"
    by (simp add: power_int_minus_divide)
  have "double_round (141863388262170615 / 140737488355328) = of_int 8866461766385663 * (1 / 8796093022208)"
    by (rule double_round_scaleI [OF _ s]) simp_all
  then show ?thesis by simp
qed

lemma double_4_5: "double_round (4 / 5) = 3602879701896397 / 4503599627370496"
proof -
  have s: "(2::rat) powi (- 53) = 1 / 9007199254740992"
    by (simp add: power_int_minus_divide)
  have "double_round (4 / 5) = of_int 7205759403792794 * (1 / 9007199254740992)"
    by (rule double_round_scaleI [OF _ s]) simp_all
  then show ?thesis by simp
qed

lemma double_3_2: "double_round (3 / 2) = 3 / 2"
proof -
  have s: "(2::rat) powi (- 52) = 1 / 4503599627370496"
    by (simp add: power_int_minus_divide)
  have "double_round (3 / 2) = of_int 6755399441055744 * (1 / 4503599627370496)"
    by (rule double_round_scaleI [OF _ s]) simp_all
  then show ?thesis by simp
qed

lemma double_2000: "double_round (2000) = 2000"
proof -
  have s: "(2::rat) powi (- 42) = 1 / 4398046511104"
    by (simp add: power_int_minus_divide)
  have "double_round (2000) = of_int 8796093022208000 * (1 / 4398046511104)"
    by (rule double_round_scaleI [OF _ s]) simp_all
  then show ?thesis by simp
qed

lemma double_2000_times_4_5: "double_round (450359962737049625 / 281474976710656) = 1600"
proof -
  have s: "(2::rat) powi (- 42) = 1 / 4398046511104"
    by (simp add: power_int_minus_divide)
  have "double_round (450359962737049625 / 281474976710656) = of_int 7036874417766400 * (1 / 4398046511104)"
    by (rule double_round_scaleI [OF _ s]) simp_all
  then show ?thesis by simp
qed

lemma double_1080: "double_round (1080) = 1080"
proof -
  have s: "(2::rat) powi (- 42) = 1 / 4398046511104"
    by (simp add: power_int_minus_divide)
  have "double_round (1080) = of_int 4749890231992320 * (1 / 4398046511104)"
    by (rule double_round_scaleI [OF _ s]) simp_all
  then show ?thesis by simp
qed

lemma double_1080_times_4_5: "double_round (486388759756013595 / 562949953421312) = 864"
proof -
  have s: "(2::rat) powi (- 43) = 1 / 8796093022208"
    by (simp add: power_int_minus_divide)
  have "double_round (486388759756013595 / 562949953421312) = of_int 7599824371187712 * (1 / 8796093022208)"
    by (rule double_round_scaleI [OF _ s]) simp_all
  then show ?thesis by simp
qed

lemma double_1: "double_round (1) = 1"
proof -
  have s: "(2::rat) powi (- 52) = 1 / 4503599627370496"
    by (simp add: power_int_minus_divide)
  have "double_round (1) = of_int 4503599627370496 * (1 / 4503599627370496)"
    by (rule double_round_scaleI [OF _ s]) simp_all
  then show ?thesis by simp
qed

lemma double_1_10: "double_round (1 / 10) = 3602879701896397 / 36028797018963968"
proof -
  have s: "(2::rat) powi (- 56) = 1 / 72057594037927936"
    by (simp add: power_int_minus_divide)
  have "double_round (1 / 10) = of_int 7205759403792794 * (1 / 72057594037927936)"
    by (rule double_round_scaleI [OF _ s]) simp_all
  then show ?thesis by simp
qed

lemma double_100: "double_round (100) = 100"
proof -
  have s: "(2::rat) powi (- 46) = 1 / 70368744177664"
    by (simp add: power_int_minus_divide)
  have "double_round (100) = of_int 7036874417766400 * (1 / 70368744177664)"
    by (rule double_round_scaleI [OF _ s]) simp_all
  then show ?thesis by simp
qed

section \<open>Properties of the smart crop calculator\<close>

subsection \<open>Crop dimensions\<close>

lemma py_int_floor: "0 \<le> v \<Longrightarrow> py_int v = \<lfloor>v\<rfloor>"
  by (simp add: py_int_def)

text \<open>
  Rounded operations on positive arguments stay within the relative error of the
  roundings involved.
\<close>

lemma int_to_float_bounds:
  assumes "0 < n"
  shows "of_int n * (1 - 1 / 2 ^ 53) \<le> int_to_float n"
    and "int_to_float n \<le> of_int n * (1 + 1 / 2 ^ 53)" and "0 < int_to_float n"
  unfolding int_to_float_def using double_round_bounds [of "of_int n"] assms by simp_all

lemma float_div_bounds:
  assumes "0 < a" "0 < b"
  shows "a / b * (1 - 1 / 2 ^ 53) \<le> float_div a b"
    and "float_div a b \<le> a / b * (1 + 1 / 2 ^ 53)" and "0 < float_div a b"
  unfolding float_div_def using double_round_bounds [of "a / b"] assms by simp_all

lemma float_mul_bounds:
  assumes "0 < a" "0 < b"
  shows "a * b * (1 - 1 / 2 ^ 53) \<le> float_mul a b"
    and "float_mul a b \<le> a * b * (1 + 1 / 2 ^ 53)" and "0 < float_mul a b"
  unfolding float_mul_def using double_round_bounds [of "a * b"] assms by simp_all

lemma int_true_div_bounds:
  assumes "0 < m" "0 < n"
  shows "of_int m / of_int n * (1 - 1 / 2 ^ 53) \<le> int_true_div m n"
    and "int_true_div m n \<le> of_int m / of_int n * (1 + 1 / 2 ^ 53)"
  unfolding int_true_div_def using double_round_bounds [of "of_int m / of_int n"] assms
  by simp_all

text \<open>Products and quotients of enclosed positive numbers.\<close>

lemma enclosed_mult:
  fixes x y a b :: rat
  assumes "0 \<le> x" "0 \<le> y" "0 \<le> l1" "0 \<le> l2"
    and "x * l1 \<le> a" "a \<le> x * h1" "y * l2 \<le> b" "b \<le> y * h2"
  shows "x * y * (l1 * l2) \<le> a * b" and "a * b \<le> x * y * (h1 * h2)"
proof -
  have a0: "0 \<le> a" using assms(1,3,5) by (meson mult_nonneg_nonneg order_trans)
  have b0: "0 \<le> b" using assms(2,4,7) by (meson mult_nonneg_nonneg order_trans)
  have "(x * l1) * (y * l2) \<le> a * b"
    using assms a0 b0 by (intro mult_mono) simp_all
  then show "x * y * (l1 * l2) \<le> a * b" by (simp add: mult_ac)
  have "a * b \<le> (x * h1) * (y * h2)"
    using assms a0 b0 by (intro mult_mono) simp_all
  then show "a * b \<le> x * y * (h1 * h2)" by (simp add: mult_ac)
qed

lemma enclosed_div:
  fixes x y a b :: rat
  assumes "0 \<le> x" "0 < y" "0 \<le> l1" "0 < l2"
    and "x * l1 \<le> a" "a \<le> x * h1" "y * l2 \<le> b" "b \<le> y * h2"
  shows "x / y * (l1 / h2) \<le> a / b" and "a / b \<le> x / y * (h1 / l2)"
proof -
  have a0: "0 \<le> a" using assms(1,3,5) by (meson mult_nonneg_nonneg order_trans)
  have yl: "0 < y * l2" using assms(2,4) by simp
  have b0: "0 < b" using yl assms(7) by linarith
  have "(x * l1) / (y * h2) \<le> a / b"
    using assms a0 b0 by (intro frac_le) simp_all
  then show "x / y * (l1 / h2) \<le> a / b" by simp
  have "a / b \<le> (x * h1) / (y * l2)"
    using assms a0 yl by (intro frac_le) simp_all
  then show "a / b \<le> x / y * (h1 / l2)" by simp
qed

lemma three_roundings:
  "(1 - 1 / 2 ^ 51 :: rat) \<le> (1 - 1 / 2 ^ 53) * (1 - 1 / 2 ^ 53) * (1 - 1 / 2 ^ 53)"
  "(1 + 1 / 2 ^ 53) * (1 + 1 / 2 ^ 53) * (1 + 1 / 2 ^ 53) \<le> (1 + 1 / 2 ^ 51 :: rat)"
  "(1 - 1 / 2 ^ 51 :: rat) \<le> (1 - 1 / 2 ^ 53) / (1 + 1 / 2 ^ 53) * (1 - 1 / 2 ^ 53)"
  "(1 + 1 / 2 ^ 53) / (1 - 1 / 2 ^ 53) * (1 + 1 / 2 ^ 53) \<le> (1 + 1 / 2 ^ 51 :: rat)"
  "(1 - 1 / 2 ^ 51 :: rat) \<le> (1 - 1 / 2 ^ 53) / (1 + 1 / 2 ^ 53)"
  "(0::rat) \<le> 1 - 1 / 2 ^ 53" "(0::rat) < 1 - 1 / 2 ^ 53" "(0::rat) < 1 + 1 / 2 ^ 53"
  by simp_all

lemma crop_dimensions_wide:
  assumes "0 < W" "0 < H" "0 < tw" "0 < th"
    and wide: "int_true_div W H > float_div tw th"
  shows "\<exists>cw. crop_dimensions (tw, th) W H = Inr (cw, H) \<and> 0 \<le> cw \<and> cw \<le> W
          \<and> of_int H * (tw / th) * (1 - 1 / 2 ^ 51) - 1 < of_int cw
          \<and> of_int cw \<le> of_int H * (tw / th) * (1 + 1 / 2 ^ 51)"
proof -
  define t where "t = tw / th"
  define td where "td = float_div tw th"
  define Hf where "Hf = int_to_float H"
  define p where "p = float_mul Hf td"
  define E :: rat where "E = of_int H * t"
  define cw where "cw = min (py_int p) W"
  have t: "0 < t" using assms(3,4) by (simp add: t_def)
  have E: "0 < E" using t assms(2) by (simp add: E_def)
  note TD = float_div_bounds [OF assms(3,4), folded td_def t_def]
  note HF = int_to_float_bounds [OF assms(2), folded Hf_def]
  note P = float_mul_bounds [OF HF(3) TD(3), folded p_def]
  have H0: "(0::rat) \<le> of_int H" using assms(2) by simp
  note M = enclosed_mult [OF H0 less_imp_le [OF t] three_roundings(6) three_roundings(6)
      HF(1,2) TD(1,2), folded E_def]
  have plo: "E * (1 - 1 / 2 ^ 51) \<le> p"
  proof -
    have "E * (1 - 1 / 2 ^ 51) \<le> E * ((1 - 1 / 2 ^ 53) * (1 - 1 / 2 ^ 53) * (1 - 1 / 2 ^ 53))"
      using E three_roundings(1) by (intro mult_left_mono) simp_all
    also have "\<dots> = E * ((1 - 1 / 2 ^ 53) * (1 - 1 / 2 ^ 53)) * (1 - 1 / 2 ^ 53)"
      by (simp only: mult.assoc)
    also have "\<dots> \<le> Hf * td * (1 - 1 / 2 ^ 53)"
      using M(1) three_roundings(6) by (intro mult_right_mono)
    also have "\<dots> \<le> p" by (rule P(1))
    finally show ?thesis .
  qed
  have phi: "p \<le> E * (1 + 1 / 2 ^ 51)"
  proof -
    have "p \<le> Hf * td * (1 + 1 / 2 ^ 53)" by (rule P(2))
    also have "\<dots> \<le> E * ((1 + 1 / 2 ^ 53) * (1 + 1 / 2 ^ 53)) * (1 + 1 / 2 ^ 53)"
      using M(2) three_roundings(8) by (intro mult_right_mono) simp_all
    also have "\<dots> = E * ((1 + 1 / 2 ^ 53) * (1 + 1 / 2 ^ 53) * (1 + 1 / 2 ^ 53))"
      by (simp only: mult.assoc)
    also have "\<dots> \<le> E * (1 + 1 / 2 ^ 51)"
      using E three_roundings(2) by (intro mult_left_mono) simp_all
    finally show ?thesis .
  qed
  have fl: "of_int (py_int p) \<le> p" "p < of_int (py_int p) + 1" "0 \<le> py_int p"
    using P(3) by (simp_all add: py_int_def) linarith+
  have Wlo: "E * (1 - 1 / 2 ^ 51) < of_int W"
  proof -
    have "t * (1 - 1 / 2 ^ 53) < of_int W / of_int H * (1 + 1 / 2 ^ 53)"
      using TD(1) wide int_true_div_bounds(2) [OF assms(1,2)] unfolding td_def by linarith
    then have "t * (1 - 1 / 2 ^ 53) * of_int H < of_int W / of_int H * (1 + 1 / 2 ^ 53) * of_int H"
      using assms(2) by (intro mult_strict_right_mono) simp_all
    then have "E * (1 - 1 / 2 ^ 53) < of_int W * (1 + 1 / 2 ^ 53)"
      using assms(2) by (simp add: E_def mult_ac)
    then have "E * (1 - 1 / 2 ^ 53) / (1 + 1 / 2 ^ 53) < of_int W"
      using three_roundings(8) by (simp add: pos_divide_less_eq)
    moreover have "E * (1 - 1 / 2 ^ 51) \<le> E * ((1 - 1 / 2 ^ 53) / (1 + 1 / 2 ^ 53))"
      using E three_roundings(5) by (intro mult_left_mono) simp_all
    ultimately show ?thesis by simp
  qed
  have dims: "crop_dimensions (tw, th) W H = Inr (cw, H)"
    using assms(2,4) wide by (simp add: crop_dimensions_def Let_def cw_def p_def Hf_def td_def)
  have "0 \<le> cw" "cw \<le> W" using fl(3) assms(1) by (simp_all add: cw_def)
  moreover have "E * (1 - 1 / 2 ^ 51) - 1 < of_int cw"
    using plo fl(2) Wlo by (simp add: cw_def min_def)
  moreover have "of_int cw \<le> E * (1 + 1 / 2 ^ 51)"
  proof -
    have "cw \<le> py_int p" by (simp add: cw_def)
    then have "(of_int cw :: rat) \<le> of_int (py_int p)" by (simp only: of_int_le_iff)
    then show ?thesis using fl(1) phi by linarith
  qed
  ultimately show ?thesis using dims unfolding E_def t_def by blast
qed


lemma crop_dimensions_tall:
  assumes "0 < W" "0 < H" "0 < tw" "0 < th"
    and tall: "\<not> int_true_div W H > float_div tw th"
  shows "\<exists>ch. crop_dimensions (tw, th) W H = Inr (W, ch) \<and> 0 \<le> ch \<and> ch \<le> H
          \<and> of_int W * (th / tw) * (1 - 1 / 2 ^ 51) - 1 < of_int ch
          \<and> of_int ch \<le> of_int W * (th / tw) * (1 + 1 / 2 ^ 51)"
proof -
  define t where "t = tw / th"
  define td where "td = float_div tw th"
  define Wf where "Wf = int_to_float W"
  define p where "p = float_div Wf td"
  define E :: rat where "E = of_int W / t"
  define ch where "ch = min (py_int p) H"
  have t: "0 < t" using assms(3,4) by (simp add: t_def)
  have E: "0 < E" using t assms(1) by (simp add: E_def)
  have E_eq: "E = of_int W * (th / tw)" by (simp add: E_def t_def)
  note TD = float_div_bounds [OF assms(3,4), folded td_def t_def]
  note WF = int_to_float_bounds [OF assms(1), folded Wf_def]
  note P = float_div_bounds [OF WF(3) TD(3), folded p_def]
  have W0: "(0::rat) \<le> of_int W" using assms(1) by simp
  note D = enclosed_div [OF W0 t three_roundings(6) three_roundings(7) WF(1,2) TD(1,2),
      folded E_def]
  have plo: "E * (1 - 1 / 2 ^ 51) \<le> p"
  proof -
    have "E * (1 - 1 / 2 ^ 51) \<le> E * ((1 - 1 / 2 ^ 53) / (1 + 1 / 2 ^ 53) * (1 - 1 / 2 ^ 53))"
      using E three_roundings(3) by (intro mult_left_mono) simp_all
    also have "\<dots> = E * ((1 - 1 / 2 ^ 53) / (1 + 1 / 2 ^ 53)) * (1 - 1 / 2 ^ 53)"
      by (simp only: mult.assoc)
    also have "\<dots> \<le> Wf / td * (1 - 1 / 2 ^ 53)"
      using D(1) three_roundings(6) by (intro mult_right_mono)
    also have "\<dots> \<le> p" by (rule P(1))
    finally show ?thesis .
  qed
  have phi: "p \<le> E * (1 + 1 / 2 ^ 51)"
  proof -
    have "p \<le> Wf / td * (1 + 1 / 2 ^ 53)" by (rule P(2))
    also have "\<dots> \<le> E * ((1 + 1 / 2 ^ 53) / (1 - 1 / 2 ^ 53)) * (1 + 1 / 2 ^ 53)"
      using D(2) three_roundings(8) by (intro mult_right_mono) simp_all
    also have "\<dots> = E * ((1 + 1 / 2 ^ 53) / (1 - 1 / 2 ^ 53) * (1 + 1 / 2 ^ 53))"
      by (simp only: mult.assoc)
    also have "\<dots> \<le> E * (1 + 1 / 2 ^ 51)"
      using E three_roundings(4) by (intro mult_left_mono) simp_all
    finally show ?thesis .
  qed
  have fl: "of_int (py_int p) \<le> p" "p < of_int (py_int p) + 1" "0 \<le> py_int p"
    using P(3) by (simp_all add: py_int_def) linarith+
  have Hlo: "E * (1 - 1 / 2 ^ 51) \<le> of_int H"
  proof -
    have "of_int W / of_int H * (1 - 1 / 2 ^ 53) \<le> t * (1 + 1 / 2 ^ 53)"
      using TD(2) tall int_true_div_bounds(1) [OF assms(1,2)] unfolding td_def by linarith
    then have "of_int W / of_int H * (1 - 1 / 2 ^ 53) * of_int H \<le> t * (1 + 1 / 2 ^ 53) * of_int H"
      using assms(2) by (intro mult_right_mono) simp_all
    then have "of_int W * (1 - 1 / 2 ^ 53) \<le> of_int H * (t * (1 + 1 / 2 ^ 53))"
      using assms(2) by (simp add: mult_ac)
    then have "of_int W * (1 - 1 / 2 ^ 53) / (t * (1 + 1 / 2 ^ 53)) \<le> of_int H"
      using t three_roundings(8) by (simp add: pos_divide_le_eq)
    then have "E * ((1 - 1 / 2 ^ 53) / (1 + 1 / 2 ^ 53)) \<le> of_int H"
      by (simp add: E_def)
    moreover have "E * (1 - 1 / 2 ^ 51) \<le> E * ((1 - 1 / 2 ^ 53) / (1 + 1 / 2 ^ 53))"
      using E three_roundings(5) by (intro mult_left_mono) simp_all
    ultimately show ?thesis by simp
  qed
  have td0: "td \<noteq> 0" using TD(3) by simp
  have dims: "crop_dimensions (tw, th) W H = Inr (W, ch)"
    using assms(2,4) tall td0
    by (simp add: crop_dimensions_def Let_def ch_def p_def Wf_def td_def)
  have "0 \<le> ch" "ch \<le> H" using fl(3) assms(2) by (simp_all add: ch_def)
  moreover have "E * (1 - 1 / 2 ^ 51) - 1 < of_int ch"
    using plo fl(2) Hlo by (simp add: ch_def min_def)
  moreover have "of_int ch \<le> E * (1 + 1 / 2 ^ 51)"
  proof -
    have "ch \<le> py_int p" by (simp add: ch_def)
    then have "(of_int ch :: rat) \<le> of_int (py_int p)" by (simp only: of_int_le_iff)
    then show ?thesis using fl(1) phi by linarith
  qed
  ultimately show ?thesis using dims unfolding E_eq by blast
qed

text \<open>Both branches: a result with components inside the image.\<close>

lemma crop_dimensions_cases:
  assumes "0 < W" "0 < H" "0 < tw" "0 < th"
  obtains cw ch where "crop_dimensions (tw, th) W H = Inr (cw, ch)"
    "0 \<le> cw" "cw \<le> W" "0 \<le> ch" "ch \<le> H"
    "(ch = H \<and> of_int H * (tw / th) * (1 - 1 / 2 ^ 51) - 1 < of_int cw
       \<and> of_int cw \<le> of_int H * (tw / th) * (1 + 1 / 2 ^ 51))
     \<or> (cw = W \<and> of_int W * (th / tw) * (1 - 1 / 2 ^ 51) - 1 < of_int ch
       \<and> of_int ch \<le> of_int W * (th / tw) * (1 + 1 / 2 ^ 51))"
proof (cases "int_true_div W H > float_div tw th")
  case True
  from crop_dimensions_wide [OF assms True] obtain cw where
    "crop_dimensions (tw, th) W H = Inr (cw, H)" "0 \<le> cw" "cw \<le> W"
    "of_int H * (tw / th) * (1 - 1 / 2 ^ 51) - 1 < of_int cw"
    "of_int cw \<le> of_int H * (tw / th) * (1 + 1 / 2 ^ 51)"
    by blast
  then show ?thesis using that [of cw H] assms(2) by simp
next
  case False
  from crop_dimensions_tall [OF assms False] obtain ch where
    "crop_dimensions (tw, th) W H = Inr (W, ch)" "0 \<le> ch" "ch \<le> H"
    "of_int W * (th / tw) * (1 - 1 / 2 ^ 51) - 1 < of_int ch"
    "of_int ch \<le> of_int W * (th / tw) * (1 + 1 / 2 ^ 51)"
    by blast
  then show ?thesis using that [of W ch] assms(1) by simp
qed

subsection \<open>The crop box of each strategy\<close>

lemma clamp_add: "cw \<le> W \<Longrightarrow> max 0 (min (W - cw) v) + cw \<le> (W::int)"
  by auto

lemma face_strategy_box:
  assumes "0 \<le> cw" "cw \<le> W" "0 \<le> ch" "ch \<le> H"
  shows "0 \<le> box_x (crop_box (face_strategy f0 fs hr W H cw ch))
       \<and> 0 \<le> box_y (crop_box (face_strategy f0 fs hr W H cw ch))
       \<and> box_x (crop_box (face_strategy f0 fs hr W H cw ch)) + cw \<le> W
       \<and> box_y (crop_box (face_strategy f0 fs hr W H cw ch)) + ch \<le> H
       \<and> box_width (crop_box (face_strategy f0 fs hr W H cw ch)) = cw
       \<and> box_height (crop_box (face_strategy f0 fs hr W H cw ch)) = ch"
  using assms by (simp add: face_strategy_def Let_def split_beta clamp_add split del: if_split)

text \<open>The vertical placement of the person strategy, step by step.\<close>

lemma person_strategy_box_y:
  "box_y (crop_box (person_strategy p0 ps W H cw ch)) =
    (let person_top = box_y (box (max_by detection_key p0 ps));
         y0 = max 0 (min (H - ch) (person_top - py_int (of_int ch * (1 / 5))));
         y1 = (if y0 \<ge> person_top
               then min (max 0 (person_top - py_int (of_int ch * (1 / 20)))) (H - ch) else y0)
     in if \<not> (y1 \<le> person_top \<and> person_top \<le> y1 + ch)
        then min (max 0 (person_top - py_int (of_int ch * (1 / 10)))) (H - ch) else y1)"
  unfolding person_strategy_def Let_def by (simp split del: if_split)

lemma person_y_bounds:
  fixes H ch pt a b c :: int
  assumes "0 \<le> ch" "ch \<le> H"
  defines "y0 \<equiv> max 0 (min (H - ch) a)"
  defines "y1 \<equiv> (if y0 \<ge> pt then min (max 0 b) (H - ch) else y0)"
  defines "y2 \<equiv> (if \<not> (y1 \<le> pt \<and> pt \<le> y1 + ch) then min (max 0 c) (H - ch) else y1)"
  shows "0 \<le> y2 \<and> y2 + ch \<le> H"
proof -
  have 0: "0 \<le> y0 \<and> y0 + ch \<le> H" unfolding y0_def using assms(1,2) by auto
  have 1: "0 \<le> y1 \<and> y1 + ch \<le> H" unfolding y1_def using 0 assms(1,2) by auto
  show ?thesis unfolding y2_def using 1 assms(1,2) by auto
qed

lemma person_strategy_box:
  assumes "0 \<le> cw" "cw \<le> W" "0 \<le> ch" "ch \<le> H"
  shows "0 \<le> box_x (crop_box (person_strategy p0 ps W H cw ch))
       \<and> 0 \<le> box_y (crop_box (person_strategy p0 ps W H cw ch))
       \<and> box_x (crop_box (person_strategy p0 ps W H cw ch)) + cw \<le> W
       \<and> box_y (crop_box (person_strategy p0 ps W H cw ch)) + ch \<le> H
       \<and> box_width (crop_box (person_strategy p0 ps W H cw ch)) = cw
       \<and> box_height (crop_box (person_strategy p0 ps W H cw ch)) = ch"
proof -
  have y: "0 \<le> box_y (crop_box (person_strategy p0 ps W H cw ch))
         \<and> box_y (crop_box (person_strategy p0 ps W H cw ch)) + ch \<le> H"
    unfolding person_strategy_box_y Let_def using person_y_bounds [OF assms(3,4)] by blast
  have x: "0 \<le> box_x (crop_box (person_strategy p0 ps W H cw ch))
         \<and> box_x (crop_box (person_strategy p0 ps W H cw ch)) + cw \<le> W
         \<and> box_width (crop_box (person_strategy p0 ps W H cw ch)) = cw
         \<and> box_height (crop_box (person_strategy p0 ps W H cw ch)) = ch"
    using assms by (simp add: person_strategy_def Let_def clamp_add split del: if_split)
  show ?thesis using x y by blast
qed

lemma center_strategy_box:
  assumes "0 \<le> cw" "cw \<le> W" "0 \<le> ch" "ch \<le> H"
  shows "0 \<le> box_x (crop_box (center_strategy W H cw ch))
       \<and> 0 \<le> box_y (crop_box (center_strategy W H cw ch))
       \<and> box_x (crop_box (center_strategy W H cw ch)) + cw \<le> W
       \<and> box_y (crop_box (center_strategy W H cw ch)) + ch \<le> H
       \<and> box_width (crop_box (center_strategy W H cw ch)) = cw
       \<and> box_height (crop_box (center_strategy W H cw ch)) = ch"
proof -
  have "0 \<le> (W - cw) div 2" "(W - cw) div 2 + cw \<le> W"
       "0 \<le> (H - ch) div 2" "(H - ch) div 2 + ch \<le> H"
    using assms by linarith+
  then show ?thesis by (simp add: center_strategy_def Let_def)
qed


lemma calculate_smart_crop_box:
  assumes dims: "crop_dimensions ar W H = Inr (cw, ch)"
    and "0 \<le> cw" "cw \<le> W" "0 \<le> ch" "ch \<le> H"
  shows "\<exists>r. calculate_smart_crop path ar fs ps W H hr = Inr r
           \<and> 0 \<le> box_x (crop_box r) \<and> 0 \<le> box_y (crop_box r)
           \<and> box_x (crop_box r) + cw \<le> W \<and> box_y (crop_box r) + ch \<le> H
           \<and> box_width (crop_box r) = cw \<and> box_height (crop_box r) = ch"
proof (cases fs)
  case (Cons f0 others)
  then have "calculate_smart_crop path ar fs ps W H hr = Inr (face_strategy f0 others hr W H cw ch)"
    by (simp add: calculate_smart_crop_def dims)
  then show ?thesis using face_strategy_box [OF assms(2-5)] by simp
next
  case Nil
  show ?thesis
  proof (cases ps)
    case (Cons p0 others)
    then have "calculate_smart_crop path ar fs ps W H hr = Inr (person_strategy p0 others W H cw ch)"
      by (simp add: calculate_smart_crop_def dims Nil)
    then show ?thesis using person_strategy_box [OF assms(2-5)] by simp
  next
    case Nil2: Nil
    then have "calculate_smart_crop path ar fs ps W H hr = Inr (center_strategy W H cw ch)"
      by (simp add: calculate_smart_crop_def dims Nil)
    then show ?thesis using center_strategy_box [OF assms(2-5)] by simp
  qed
qed

subsection \<open>The crop lies in the image and is maximal\<close>

lemma saliency_7_5:
  "calculate_smart_crop ''a.jpg'' (7, 5) [] [] 1280 720 default_headroom_ratio
     = Inr \<lparr>crop_box = \<lparr>box_x = 136, box_y = 0, box_width = 1007, box_height = 720\<rparr>,
            crop_confidence = 3 / 10, crop_method = ''saliency'',
            crop_reason = ''No faces or persons detected, using center crop''\<rparr>"
proof -
  have lt: "float_div 7 5 < int_true_div 1280 720"
    by (simp add: float_div_def int_true_div_def double_7_5 double_16_9)
  have m: "float_mul (int_to_float 720) (float_div 7 5) = 8866461766385663 / 8796093022208"
    by (simp add: float_mul_def int_to_float_def float_div_def double_720 double_7_5
          double_720_times_7_5)
  have "\<lfloor>8866461766385663 / 8796093022208 :: rat\<rfloor> = 1007"
    by (rule floor_unique) simp_all
  then have f: "py_int (8866461766385663 / 8796093022208) = 1007"
    by (simp add: py_int_def)
  have w: "py_int (float_mul (int_to_float 720) (float_div 7 5)) = 1007"
    by (simp only: m f)
  have "crop_dimensions (7, 5) 1280 720 = Inr (1007, 720)"
    using lt by (simp add: crop_dimensions_def w)
  then show ?thesis
    by (simp add: calculate_smart_crop_def center_strategy_def)
qed

text \<open>
  Claim C1 as stated fails where the rounding of the doubles meets the truncation: for
  the ratio 7:5 on a 1280 by 720 image the exact width \<open>720 * 7 / 5\<close> is the integer 1008,
  which fits the image, but \<open>720 * 1.4\<close> is the double just below 1008 and the crop is 1007
  wide, a whole pixel off.
\<close>

theorem crop_ratio_counterexample:
  "calculate_smart_crop ''a.jpg'' (7, 5) [] [] 1280 720 default_headroom_ratio
     = Inr \<lparr>crop_box = \<lparr>box_x = 136, box_y = 0, box_width = 1007, box_height = 720\<rparr>,
            crop_confidence = 3 / 10, crop_method = ''saliency'',
            crop_reason = ''No faces or persons detected, using center crop''\<rparr>
   \<and> (of_int 720 * (7 / 5) :: rat) = 1008
   \<and> \<not> ((of_int 720 * (7 / 5) :: rat) - 1 < of_int 1007)"
  using saliency_7_5 by simp

text \<open>
  Claim C1, as amended. For an image of positive width and height and a target ratio
  \<open>(tw, th)\<close> with positive components, \<open>calculate_smart_crop\<close> returns a result for any
  faces and persons; its crop box has a non-negative origin and size and lies inside
  \<open>[0, image_width] \<times> [0, image_height]\<close>; and it is maximal: either the crop height is
  the image height and the crop width \<open>w\<close> satisfies
  \<open>e * (1 - 2^-51) - 1 < w \<le> e * (1 + 2^-51)\<close> for the exact width \<open>e = height * tw / th\<close>,
  or the crop width is the image width and the crop height satisfies the same bounds for
  \<open>e = width * th / tw\<close>. The factors \<open>1 \<plusminus> 2^-51\<close> cover the three roundings of the
  double arithmetic, the \<open>- 1\<close> the truncation.
\<close>

theorem crop_within_image_and_maximal:
  assumes "0 < image_width" "0 < image_height" "0 < tw" "0 < th"
  shows "\<exists>r. calculate_smart_crop image_path (tw, th) fs ps image_width image_height headroom_ratio = Inr r
           \<and> 0 \<le> box_x (crop_box r) \<and> 0 \<le> box_y (crop_box r)
           \<and> 0 \<le> box_width (crop_box r) \<and> 0 \<le> box_height (crop_box r)
           \<and> box_x (crop_box r) + box_width (crop_box r) \<le> image_width
           \<and> box_y (crop_box r) + box_height (crop_box r) \<le> image_height
           \<and> ((box_height (crop_box r) = image_height
                \<and> of_int image_height * (tw / th) * (1 - 1 / 2 ^ 51) - 1
                     < of_int (box_width (crop_box r))
                \<and> of_int (box_width (crop_box r))
                     \<le> of_int image_height * (tw / th) * (1 + 1 / 2 ^ 51))
              \<or> (box_width (crop_box r) = image_width
                \<and> of_int image_width * (th / tw) * (1 - 1 / 2 ^ 51) - 1
                     < of_int (box_height (crop_box r))
                \<and> of_int (box_height (crop_box r))
                     \<le> of_int image_width * (th / tw) * (1 + 1 / 2 ^ 51)))"
proof -
  obtain cw ch where d: "crop_dimensions (tw, th) image_width image_height = Inr (cw, ch)"
    and b: "0 \<le> cw" "cw \<le> image_width" "0 \<le> ch" "ch \<le> image_height"
    and m: "(ch = image_height
              \<and> of_int image_height * (tw / th) * (1 - 1 / 2 ^ 51) - 1 < of_int cw
              \<and> of_int cw \<le> of_int image_height * (tw / th) * (1 + 1 / 2 ^ 51))
            \<or> (cw = image_width
              \<and> of_int image_width * (th / tw) * (1 - 1 / 2 ^ 51) - 1 < of_int ch
              \<and> of_int ch \<le> of_int image_width * (th / tw) * (1 + 1 / 2 ^ 51))"
    using crop_dimensions_cases [OF assms] by blast
  obtain r where r: "calculate_smart_crop image_path (tw, th) fs ps image_width image_height headroom_ratio = Inr r"
    and bx: "0 \<le> box_x (crop_box r)" "0 \<le> box_y (crop_box r)"
      "box_x (crop_box r) + cw \<le> image_width" "box_y (crop_box r) + ch \<le> image_height"
    and wh: "box_width (crop_box r) = cw" "box_height (crop_box r) = ch"
    using calculate_smart_crop_box [OF d b] by blast
  show ?thesis
    using r bx b m unfolding wh [symmetric] by (intro exI [of _ r]) blast
qed

theorem crop_within_image_and_maximal_witness:
  "(0::int) < 1280 \<and> (0::int) < 720 \<and> (0::rat) < 7 \<and> (0::rat) < 5
   \<and> (\<exists>r. calculate_smart_crop ''a.jpg'' (7, 5) [] [] 1280 720 default_headroom_ratio = Inr r
          \<and> 0 \<le> box_x (crop_box r) \<and> 0 \<le> box_y (crop_box r)
          \<and> 0 \<le> box_width (crop_box r) \<and> 0 \<le> box_height (crop_box r)
          \<and> box_x (crop_box r) + box_width (crop_box r) \<le> 1280
          \<and> box_y (crop_box r) + box_height (crop_box r) \<le> 720
          \<and> ((box_height (crop_box r) = 720
               \<and> of_int 720 * (7 / 5) * (1 - 1 / 2 ^ 51) - 1 < (of_int (box_width (crop_box r)) :: rat)
               \<and> (of_int (box_width (crop_box r)) :: rat) \<le> of_int 720 * (7 / 5) * (1 + 1 / 2 ^ 51))
             \<or> (box_width (crop_box r) = 1280
               \<and> of_int 1280 * (5 / 7) * (1 - 1 / 2 ^ 51) - 1 < (of_int (box_height (crop_box r)) :: rat)
               \<and> (of_int (box_height (crop_box r)) :: rat) \<le> of_int 1280 * (5 / 7) * (1 + 1 / 2 ^ 51))))"
proof -
  have h: "(0::int) < 1280" "(0::int) < 720" "(0::rat) < 7" "(0::rat) < 5"
    by simp_all
  show ?thesis
    by (intro conjI h crop_within_image_and_maximal [OF h])
qed

subsection \<open>Strategy selection\<close>

lemma face_strategy_method: "crop_method (face_strategy f0 others hr W H cw ch) = ''face''"
  unfolding face_strategy_def Let_def split_beta by (simp split del: if_split)

lemma person_strategy_method: "crop_method (person_strategy p0 others W H cw ch) = ''person''"
  unfolding person_strategy_def Let_def by (simp split del: if_split)

lemma center_strategy_eq:
  "center_strategy W H cw ch =
     \<lparr>crop_box = \<lparr>box_x = (W - cw) div 2, box_y = (H - ch) div 2, box_width = cw, box_height = ch\<rparr>,
      crop_confidence = 3 / 10, crop_method = ''saliency'',
      crop_reason = ''No faces or persons detected, using center crop''\<rparr>"
  by (simp add: center_strategy_def)

text \<open>
  Claim C6. The strategies are tried in a fixed order: with a non-empty list of faces the
  method is \<open>face\<close>; with no face and a non-empty list of persons it is \<open>person\<close>; with
  neither it is \<open>saliency\<close>, the confidence is exactly 0.3, and the crop box is the centred
  one, at \<open>((image_width - crop_width) // 2, (image_height - crop_height) // 2)\<close>.
\<close>

theorem strategy_priority:
  assumes "0 < image_width" "0 < image_height" "0 < tw" "0 < th"
  shows "\<exists>cw ch r. crop_dimensions (tw, th) image_width image_height = Inr (cw, ch)
           \<and> calculate_smart_crop image_path (tw, th) fs ps image_width image_height headroom_ratio = Inr r
           \<and> (fs \<noteq> [] \<longrightarrow> crop_method r = ''face'')
           \<and> (fs = [] \<and> ps \<noteq> [] \<longrightarrow> crop_method r = ''person'')
           \<and> (fs = [] \<and> ps = [] \<longrightarrow>
                crop_method r = ''saliency'' \<and> crop_confidence r = 3 / 10
                \<and> crop_box r = \<lparr>box_x = (image_width - cw) div 2, box_y = (image_height - ch) div 2,
                                 box_width = cw, box_height = ch\<rparr>)"
proof -
  obtain cw ch where d: "crop_dimensions (tw, th) image_width image_height = Inr (cw, ch)"
    using crop_dimensions_cases [OF assms] by blast
  show ?thesis
    by (intro exI [of _ cw] exI [of _ ch])
       (simp add: d calculate_smart_crop_def face_strategy_method person_strategy_method
          center_strategy_eq split: list.split)
qed

theorem strategy_priority_witness:
  "(0::int) < 1920 \<and> (0::int) < 1080 \<and> (0::rat) < 1 \<and> (0::rat) < 1
   \<and> (\<exists>cw ch r. crop_dimensions (1, 1) 1920 1080 = Inr (cw, ch)
          \<and> calculate_smart_crop ''a.jpg'' (1, 1) [] [] 1920 1080 (15 / 100) = Inr r
          \<and> crop_method r = ''saliency'' \<and> crop_confidence r = 3 / 10
          \<and> crop_box r = \<lparr>box_x = (1920 - cw) div 2, box_y = (1080 - ch) div 2,
                           box_width = cw, box_height = ch\<rparr>)"
  using strategy_priority [of 1920 1080 1 1 "''a.jpg''" "[]" "[]" "15 / 100"]
  by simp

subsection \<open>The person strategy keeps the top of the person\<close>

lemma person_y_contains:
  fixes H ch pt a b t :: int
  assumes "0 \<le> ch" "ch \<le> H" "0 \<le> pt" "pt \<le> H" "0 \<le> t" "t \<le> ch"
  defines "y0 \<equiv> max 0 (min (H - ch) a)"
  defines "y1 \<equiv> (if y0 \<ge> pt then min (max 0 b) (H - ch) else y0)"
  defines "y2 \<equiv> (if \<not> (y1 \<le> pt \<and> pt \<le> y1 + ch) then min (max 0 (pt - t)) (H - ch) else y1)"
  shows "y2 \<le> pt \<and> pt \<le> y2 + ch"
proof (cases "y1 \<le> pt \<and> pt \<le> y1 + ch")
  case True
  then show ?thesis unfolding y2_def by simp
next
  case False
  then have "y2 = min (max 0 (pt - t)) (H - ch)" unfolding y2_def by simp
  then show ?thesis using assms(1-6) by auto
qed

lemma py_int_tenth: "0 \<le> ch \<Longrightarrow> 0 \<le> py_int (of_int ch * (1 / 10)) \<and> py_int (of_int ch * (1 / 10)) \<le> ch"
proof -
  assume c: "0 \<le> ch"
  have "of_int ch * (1 / 10) \<le> (of_int ch :: rat)" using c by simp
  then have "\<lfloor>of_int ch * (1 / 10) :: rat\<rfloor> \<le> ch"
    by (simp add: floor_le_iff del: times_divide_eq_right) 
  then show ?thesis using c by (simp add: py_int_def)
qed

text \<open>
  Claim C3. With no face and at least one person, where the box of the person that
  \<open>max\<close> selects (the first of those with the largest \<open>quality_score * confidence\<close>) lies
  inside the image, the result is made by the person strategy and the top edge of that
  person satisfies \<open>crop_y \<le> person_top \<le> crop_y + crop_height\<close>.
\<close>

theorem person_top_within_crop:
  assumes "0 < image_width" "0 < image_height" "0 < tw" "0 < th"
    and "ps = first_person # others"
    and "best_person = max_by detection_key first_person others"
    and "0 \<le> box_x (box best_person)" "0 \<le> box_y (box best_person)"
    and "0 \<le> box_width (box best_person)" "0 \<le> box_height (box best_person)"
    and "box_x (box best_person) + box_width (box best_person) \<le> image_width"
    and "box_y (box best_person) + box_height (box best_person) \<le> image_height"
  shows "\<exists>r. calculate_smart_crop image_path (tw, th) [] ps image_width image_height headroom_ratio = Inr r
           \<and> crop_method r = ''person''
           \<and> box_y (crop_box r) \<le> box_y (box best_person)
           \<and> box_y (box best_person) \<le> box_y (crop_box r) + box_height (crop_box r)"
proof -
  obtain cw ch where d: "crop_dimensions (tw, th) image_width image_height = Inr (cw, ch)"
    and b: "0 \<le> cw" "cw \<le> image_width" "0 \<le> ch" "ch \<le> image_height"
    using crop_dimensions_cases [OF assms(1-4)] by blast
  let ?r = "person_strategy first_person others image_width image_height cw ch"
  have r: "calculate_smart_crop image_path (tw, th) [] ps image_width image_height headroom_ratio = Inr ?r"
    by (simp add: calculate_smart_crop_def d assms(5))
  have h: "box_height (crop_box ?r) = ch"
    using person_strategy_box [OF b] by blast
  have pt: "0 \<le> box_y (box best_person)" "box_y (box best_person) \<le> image_height"
    using assms(8,10,12) by linarith+
  have y: "box_y (crop_box ?r) \<le> box_y (box best_person)
         \<and> box_y (box best_person) \<le> box_y (crop_box ?r) + ch"
    unfolding person_strategy_box_y Let_def assms(6) [symmetric]
    using person_y_contains [OF b(3,4) pt, of "py_int (of_int ch * (1 / 10))"] py_int_tenth [OF b(3)]
    by blast
  show ?thesis using r h y person_strategy_method by (intro exI [of _ ?r]) simp
qed

theorem person_top_within_crop_witness:
  "\<exists>r. calculate_smart_crop ''a.jpg'' (4, 5) []
          [\<lparr>box = \<lparr>box_x = 800, box_y = 200, box_width = 300, box_height = 700\<rparr>,
            confidence = Some (9 / 10), quality_score = Some (1 / 2)\<rparr>] 1920 1080 (15 / 100) = Inr r
        \<and> crop_method r = ''person''
        \<and> box_y (crop_box r) \<le> 200
        \<and> 200 \<le> box_y (crop_box r) + box_height (crop_box r)"
  using person_top_within_crop
    [where image_width = 1920 and image_height = 1080 and tw = 4 and th = 5
       and first_person = "\<lparr>box = \<lparr>box_x = 800, box_y = 200, box_width = 300, box_height = 700\<rparr>,
                        confidence = Some (9 / 10), quality_score = Some (1 / 2)\<rparr>"
       and others = "[]" and image_path = "''a.jpg''" and headroom_ratio = "15 / 100",
     OF _ _ _ _ refl refl]
  by simp

subsection \<open>The face strategy and the best face\<close>

lemma py_int_between:
  assumes "of_int a \<le> v" "v \<le> of_int b"
  shows "a \<le> py_int v \<and> py_int v \<le> b"
proof -
  have 1: "a \<le> \<lfloor>v\<rfloor>" using assms(1) by (simp add: le_floor_iff)
  have 2: "\<lceil>v\<rceil> \<le> b" using assms(2) by (simp add: ceiling_le_iff)
  have 3: "\<lfloor>v\<rfloor> \<le> \<lceil>v\<rceil>" by (rule floor_le_ceiling)
  show ?thesis
  proof (cases "0 \<le> v")
    case True
    then have "py_int v = \<lfloor>v\<rfloor>" by (simp add: py_int_def)
    then show ?thesis using 1 2 3 by linarith
  next
    case False
    then have "py_int v = \<lceil>v\<rceil>" by (simp add: py_int_def)
    then show ?thesis using 1 2 3 by linarith
  qed
qed

lemma clamp_contains:
  fixes v :: int
  assumes "a \<le> v" "v \<le> b" "0 \<le> b" "a \<le> m"
  shows "max 0 (min m v) \<le> b \<and> a \<le> max 0 (min m v)"
  using assms by auto


lemma face_strategy_single_box_x:
  "box_x (crop_box (face_strategy f0 [] hr W H cw ch)) =
     max 0 (min (W - cw)
       (py_int (of_int (box_x (box f0)) + of_int (box_width (box f0)) / 2 - of_int cw / 2)))"
  unfolding face_strategy_def Let_def split_beta
  by (simp split del: if_split)

lemma face_strategy_box_y:
  "\<exists>ideal :: int. box_y (crop_box (face_strategy f0 fs hr W H cw ch)) =
     max 0 (min (H - ch)
       (if (of_int ideal :: rat)
             < max 0 (of_int (box_y (box (max_by detection_key f0 fs))
                               - py_int (of_int (box_height (box (max_by detection_key f0 fs))) * hr))
                      - of_int ch * (1 / 10))
        then py_int (max 0 (of_int (box_y (box (max_by detection_key f0 fs))
                               - py_int (of_int (box_height (box (max_by detection_key f0 fs))) * hr))
                      - of_int ch * (1 / 10)))
        else if (of_int ideal :: rat)
             > min (of_int (H - ch))
                   (of_int (box_y (box (max_by detection_key f0 fs))
                            + box_height (box (max_by detection_key f0 fs)))
                    - of_int ch * (9 / 10))
        then py_int (min (of_int (H - ch))
                   (of_int (box_y (box (max_by detection_key f0 fs))
                            + box_height (box (max_by detection_key f0 fs)))
                    - of_int ch * (9 / 10)))
        else ideal))"
  unfolding face_strategy_def Let_def split_beta
  by (simp only: crop_result.select_convs box.select_convs) (rule exI, rule refl)

lemma face_y_contains:
  fixes ft fh room ch H ideal :: int
  assumes "0 \<le> ch" "ch \<le> H" "0 \<le> ft" "ft + fh \<le> H" "0 \<le> fh" "0 \<le> room"
    and fits: "of_int (fh + room) \<le> (9 / 10) * (of_int ch :: rat)"
  defines "lo \<equiv> max 0 (of_int (ft - room) - of_int ch * (1 / 10) :: rat)"
  defines "hi \<equiv> min (of_int (H - ch)) (of_int (ft + fh) - of_int ch * (9 / 10) :: rat)"
  defines "y \<equiv> max 0 (min (H - ch)
     (if of_int ideal < lo then py_int lo else if of_int ideal > hi then py_int hi else ideal))"
  shows "y \<le> ft \<and> ft + fh \<le> y + ch"
proof -
  have c: "(0::rat) \<le> of_int ch" "(0::rat) \<le> of_int room" "(0::rat) \<le> of_int fh"
    "(0::rat) \<le> of_int ft" "(of_int ft :: rat) + of_int fh \<le> of_int H"
    using assms(1,3,4,5,6) by (simp_all flip: of_int_add)
  have f: "(of_int fh :: rat) + of_int room \<le> (9 / 10) * of_int ch"
    using fits by simp
  have lo: "of_int (ft + fh - ch) \<le> lo" "lo \<le> of_int ft"
    unfolding lo_def using c f by (simp_all add: le_max_iff_disj)
  have hi: "of_int (ft + fh - ch) \<le> hi" "hi \<le> of_int ft"
    unfolding hi_def using c f by (simp_all add: min_le_iff_disj)
  define y0 where
    "y0 = (if of_int ideal < lo then py_int lo else if of_int ideal > hi then py_int hi else ideal)"
  have y0: "ft + fh - ch \<le> y0 \<and> y0 \<le> ft"
  proof (cases "of_int ideal < lo")
    case True
    then show ?thesis using py_int_between [OF lo] by (simp add: y0_def)
  next
    case False
    show ?thesis
    proof (cases "of_int ideal > hi")
      case True
      then show ?thesis using False py_int_between [OF hi] by (simp add: y0_def)
    next
      case mid: False
      have "of_int (ft + fh - ch) \<le> (of_int ideal :: rat)" "(of_int ideal :: rat) \<le> of_int ft"
        using False mid lo hi by linarith+
      then have "ft + fh - ch \<le> ideal" "ideal \<le> ft"
        by (simp_all only: of_int_le_iff)
      then show ?thesis using False mid by (simp add: y0_def)
    qed
  qed
  have "max 0 (min (H - ch) y0) \<le> ft \<and> ft + fh - ch \<le> max 0 (min (H - ch) y0)"
    using y0 assms(3,4) by (intro clamp_contains) linarith+
  then show ?thesis unfolding y_def y0_def by linarith
qed

lemma face_x_contains:
  fixes fx fw cw W :: int
  assumes "cw \<le> W" "0 \<le> fx" "fx + fw \<le> W" "fw \<le> cw"
  defines "cx \<equiv> max 0 (min (W - cw) (py_int (of_int fx + of_int fw / 2 - of_int cw / 2)))"
  shows "cx \<le> fx \<and> fx + fw \<le> cx + cw"
proof -
  have d: "(of_int fw :: rat) \<le> of_int cw" using assms(4) by simp
  have b: "of_int (fx + fw - cw) \<le> (of_int fx + of_int fw / 2 - of_int cw / 2 :: rat)"
          "(of_int fx + of_int fw / 2 - of_int cw / 2 :: rat) \<le> of_int fx"
    using d by simp_all
  have "cx \<le> fx \<and> fx + fw - cw \<le> cx"
    unfolding cx_def using py_int_between [OF b] assms(2,3)
    by (intro clamp_contains) linarith+
  then show ?thesis by linarith
qed

lemma str_nat_small:
  "str_nat (Suc 0) = ''1''" "str_nat (Suc (Suc 0)) = ''2''"
  by code_simp+

lemma dims_3000_2000: "crop_dimensions (4, 5) 3000 2000 = Inr (1600, 2000)"
proof -
  have lt: "float_div 4 5 < int_true_div 3000 2000"
    by (simp add: float_div_def int_true_div_def double_4_5 double_3_2)
  have m: "float_mul (int_to_float 2000) (float_div 4 5) = 1600"
    by (simp add: float_mul_def int_to_float_def float_div_def double_2000 double_4_5
          double_2000_times_4_5)
  have w: "py_int (float_mul (int_to_float 2000) (float_div 4 5)) = 1600"
    by (simp only: m) (simp add: py_int_def)
  show ?thesis
    using lt by (simp add: crop_dimensions_def w)
qed

lemma dims_1920_1080: "crop_dimensions (4, 5) 1920 1080 = Inr (864, 1080)"
proof -
  have lt: "float_div 4 5 < int_true_div 1920 1080"
    by (simp add: float_div_def int_true_div_def double_4_5 double_16_9)
  have m: "float_mul (int_to_float 1080) (float_div 4 5) = 864"
    by (simp add: float_mul_def int_to_float_def float_div_def double_1080 double_4_5
          double_1080_times_4_5)
  have w: "py_int (float_mul (int_to_float 1080) (float_div 4 5)) = 864"
    by (simp only: m) (simp add: py_int_def)
  show ?thesis
    using lt by (simp add: crop_dimensions_def w)
qed

lemma two_faces_keys: "detection_key left_face = 9 / 10" "detection_key right_face = 1 / 2"
  by (simp_all add: detection_key_def dict_get_def left_face_def right_face_def)

lemma two_faces_best: "max_by detection_key left_face [right_face] = left_face"
  by (simp add: two_faces_keys)

lemma two_faces_strategy:
  "face_strategy left_face [right_face] default_headroom_ratio 3000 2000 1600 2000
     = \<lparr>crop_box = \<lparr>box_x = 700, box_y = 0, box_width = 1600, box_height = 2000\<rparr>,
        crop_confidence = 9 / 10, crop_method = ''face'',
        crop_reason = ''Cropped around 2 face(s), centered on highest quality face''\<rparr>"
  by (simp add: face_strategy_def Let_def py_int_def detection_key_def
        dict_get_def list_min_def list_max_def left_face_def right_face_def
        default_headroom_ratio_def str_nat_small)

text \<open>
  Claim C2 as stated fails for two faces at opposite edges of a 3000 by 2000 photo and the
  ratio 4:5: the crop is centred on the group of faces and spans the columns 700 to 2300,
  while the best face spans the columns 100 to 300.
\<close>

theorem best_face_outside_crop_counterexample:
  "calculate_smart_crop ''a.jpg'' (4, 5) [left_face, right_face] [] 3000 2000 default_headroom_ratio
     = Inr \<lparr>crop_box = \<lparr>box_x = 700, box_y = 0, box_width = 1600, box_height = 2000\<rparr>,
            crop_confidence = 9 / 10, crop_method = ''face'',
            crop_reason = ''Cropped around 2 face(s), centered on highest quality face''\<rparr>
   \<and> max_by detection_key left_face [right_face] = left_face
   \<and> box left_face = \<lparr>box_x = 100, box_y = 800, box_width = 200, box_height = 200\<rparr>
   \<and> \<not> (700 \<le> box_x (box left_face))"
proof -
  have c: "calculate_smart_crop ''a.jpg'' (4, 5) [left_face, right_face] [] 3000 2000
             default_headroom_ratio
     = Inr \<lparr>crop_box = \<lparr>box_x = 700, box_y = 0, box_width = 1600, box_height = 2000\<rparr>,
            crop_confidence = 9 / 10, crop_method = ''face'',
            crop_reason = ''Cropped around 2 face(s), centered on highest quality face''\<rparr>"
    by (simp add: calculate_smart_crop_def dims_3000_2000 two_faces_strategy)
  have b: "box left_face = \<lparr>box_x = 100, box_y = 800, box_width = 200, box_height = 200\<rparr>"
    by (simp add: left_face_def)
  have n: "\<not> (700 \<le> box_x (box left_face))"
    by (simp add: b)
  show ?thesis
    by (intro conjI c two_faces_best b n)
qed

text \<open>
  The bound on the height of the face is needed: a single face as high as the square crop
  of a 100 by 1000 photo is moved down by its headroom and cut at the bottom (the crop
  ends at row 485, the face at row 500).
\<close>

lemma dims_100_1000: "crop_dimensions (1, 1) 100 1000 = Inr (100, 100)"
proof -
  have le: "\<not> float_div 1 1 < int_true_div 100 1000"
    by (simp add: float_div_def int_true_div_def double_1 double_1_10)
  have m: "float_div (int_to_float 100) (float_div 1 1) = 100"
    by (simp add: float_div_def int_to_float_def double_1 double_100)
  have h: "py_int (float_div (int_to_float 100) (float_div 1 1)) = 100"
    by (simp only: m) (simp add: py_int_def)
  have nz: "float_div 1 1 \<noteq> 0"
    by (simp add: float_div_def double_1)
  show ?thesis
    using le nz by (simp add: crop_dimensions_def h)
qed

lemma single_face_cut_at_bottom:
  "calculate_smart_crop ''a.jpg'' (1, 1) [tall_face] [] 100 1000 default_headroom_ratio
     = Inr \<lparr>crop_box = \<lparr>box_x = 0, box_y = 385, box_width = 100, box_height = 100\<rparr>,
            crop_confidence = 1, crop_method = ''face'',
            crop_reason = ''Cropped around 1 face(s), centered on highest quality face''\<rparr>"
  by (simp add: calculate_smart_crop_def dims_100_1000 face_strategy_def Let_def py_int_def
        dict_get_def tall_face_def default_headroom_ratio_def str_nat_small)

text \<open>
  Claim C2, as amended. Take a call with at least one face, on an image of positive size
  with a positive ratio, where the best face (the first with the largest
  \<open>quality_score * confidence\<close>) lies inside the image, the headroom ratio is not
  negative, and the height of the face plus its headroom is at most 0.9 of the crop
  height. Then the result is made by the face strategy with the crop dimensions of the
  first step, and the best face lies in the crop vertically. If moreover it is the only
  face and not wider than the crop, it lies in the crop horizontally as well.
\<close>

theorem best_face_within_crop:
  assumes "0 < image_width" "0 < image_height" "0 < tw" "0 < th"
    and "crop_dimensions (tw, th) image_width image_height = Inr (crop_width, crop_height)"
    and "best_face = max_by detection_key first_face others"
    and "headroom = py_int (of_int (box_height (box best_face)) * headroom_ratio)"
    and "0 \<le> headroom_ratio"
    and "0 \<le> box_x (box best_face)" "0 \<le> box_y (box best_face)"
    and "0 \<le> box_width (box best_face)" "0 \<le> box_height (box best_face)"
    and "box_x (box best_face) + box_width (box best_face) \<le> image_width"
    and "box_y (box best_face) + box_height (box best_face) \<le> image_height"
    and "of_int (box_height (box best_face) + headroom) \<le> (9 / 10) * (of_int crop_height :: rat)"
  shows "\<exists>r. calculate_smart_crop image_path (tw, th) (first_face # others) ps
                image_width image_height headroom_ratio = Inr r
           \<and> crop_method r = ''face''
           \<and> box_width (crop_box r) = crop_width \<and> box_height (crop_box r) = crop_height
           \<and> box_y (crop_box r) \<le> box_y (box best_face)
           \<and> box_y (box best_face) + box_height (box best_face)
                \<le> box_y (crop_box r) + box_height (crop_box r)
           \<and> (others = [] \<and> box_width (box best_face) \<le> crop_width \<longrightarrow>
                 box_x (crop_box r) \<le> box_x (box best_face)
                 \<and> box_x (box best_face) + box_width (box best_face)
                      \<le> box_x (crop_box r) + box_width (crop_box r))"
proof -
  obtain cw ch where d: "crop_dimensions (tw, th) image_width image_height = Inr (cw, ch)"
    and b: "0 \<le> cw" "cw \<le> image_width" "0 \<le> ch" "ch \<le> image_height"
    using crop_dimensions_cases [OF assms(1-4)] by blast
  have eq: "cw = crop_width" "ch = crop_height" using d assms(5) by simp_all
  note b = b [unfolded eq]
  let ?r = "face_strategy first_face others headroom_ratio image_width image_height
              crop_width crop_height"
  have r: "calculate_smart_crop image_path (tw, th) (first_face # others) ps
             image_width image_height headroom_ratio = Inr ?r"
    by (simp add: calculate_smart_crop_def assms(5))
  have wh: "box_width (crop_box ?r) = crop_width" "box_height (crop_box ?r) = crop_height"
    using face_strategy_box [OF b] by blast+
  have room: "0 \<le> headroom"
  proof -
    have "(0::rat) \<le> of_int (box_height (box best_face)) * headroom_ratio"
      using assms(8,12) by simp
    then show ?thesis unfolding assms(7) by (simp add: py_int_def)
  qed
  obtain ideal :: int where y: "box_y (crop_box ?r) =
     max 0 (min (image_height - crop_height)
       (if (of_int ideal :: rat)
             < max 0 (of_int (box_y (box best_face) - headroom) - of_int crop_height * (1 / 10))
        then py_int (max 0 (of_int (box_y (box best_face) - headroom)
                            - of_int crop_height * (1 / 10)))
        else if (of_int ideal :: rat)
             > min (of_int (image_height - crop_height))
                   (of_int (box_y (box best_face) + box_height (box best_face))
                    - of_int crop_height * (9 / 10))
        then py_int (min (of_int (image_height - crop_height))
                   (of_int (box_y (box best_face) + box_height (box best_face))
                    - of_int crop_height * (9 / 10)))
        else ideal))"
    using face_strategy_box_y [of first_face others headroom_ratio image_width image_height
        crop_width crop_height]
    unfolding assms(6) [symmetric] assms(7) [symmetric] by blast
  have vertical: "box_y (crop_box ?r) \<le> box_y (box best_face)
      \<and> box_y (box best_face) + box_height (box best_face) \<le> box_y (crop_box ?r) + crop_height"
    unfolding y
    by (rule face_y_contains [OF b(3,4) assms(10,14,12) room assms(15)])
  have horizontal: "box_x (crop_box ?r) \<le> box_x (box best_face)
      \<and> box_x (box best_face) + box_width (box best_face) \<le> box_x (crop_box ?r) + crop_width"
    if single: "others = [] \<and> box_width (box best_face) \<le> crop_width"
  proof -
    have bf: "first_face = best_face" using assms(6) single by simp
    have x: "box_x (crop_box ?r) =
       max 0 (min (image_width - crop_width)
         (py_int (of_int (box_x (box best_face)) + of_int (box_width (box best_face)) / 2
                  - of_int crop_width / 2)))"
      using face_strategy_single_box_x [of first_face headroom_ratio image_width image_height
          crop_width crop_height] single
      unfolding bf by simp
    show ?thesis
      unfolding x using single by (intro face_x_contains [OF b(2) assms(9,13)]) simp
  qed
  show ?thesis
  proof (intro exI [of _ ?r] conjI impI)
    show "calculate_smart_crop image_path (tw, th) (first_face # others) ps
            image_width image_height headroom_ratio = Inr ?r"
      by (rule r)
    show "crop_method ?r = ''face''" by (rule face_strategy_method)
    show "box_width (crop_box ?r) = crop_width" by (rule wh)
    show "box_height (crop_box ?r) = crop_height" by (rule wh)
    show "box_y (crop_box ?r) \<le> box_y (box best_face)" using vertical by simp
    show "box_y (box best_face) + box_height (box best_face)
            \<le> box_y (crop_box ?r) + box_height (crop_box ?r)"
      using vertical wh by simp
    show "box_x (crop_box ?r) \<le> box_x (box best_face)"
      if "others = [] \<and> box_width (box best_face) \<le> crop_width"
      using horizontal [OF that] by simp
    show "box_x (box best_face) + box_width (box best_face)
            \<le> box_x (crop_box ?r) + box_width (crop_box ?r)"
      if "others = [] \<and> box_width (box best_face) \<le> crop_width"
      using horizontal [OF that] wh by simp
  qed
qed

theorem best_face_within_crop_witness:
  "\<exists>r. calculate_smart_crop ''a.jpg'' (4, 5) [middle_face] [] 1920 1080 default_headroom_ratio = Inr r
        \<and> crop_method r = ''face''
        \<and> box_width (crop_box r) = 864 \<and> box_height (crop_box r) = 1080
        \<and> box_y (crop_box r) \<le> 300
        \<and> 300 + 200 \<le> box_y (crop_box r) + box_height (crop_box r)
        \<and> box_x (crop_box r) \<le> 900
        \<and> 900 + 200 \<le> box_x (crop_box r) + box_width (crop_box r)"
proof -
  have hr: "py_int (of_int (box_height (box middle_face)) * default_headroom_ratio) = 30"
    by (simp add: middle_face_def default_headroom_ratio_def py_int_def)
  have bx: "box middle_face = \<lparr>box_x = 900, box_y = 300, box_width = 200, box_height = 200\<rparr>"
    by (simp add: middle_face_def)
  show ?thesis
    using best_face_within_crop
      [where image_width = 1920 and image_height = 1080 and tw = 4 and th = 5
         and crop_width = 864 and crop_height = 1080 and best_face = middle_face
         and first_face = middle_face and others = "[]" and headroom = 30
         and headroom_ratio = default_headroom_ratio and image_path = "''a.jpg''" and ps = "[]",
       OF _ _ _ _ dims_1920_1080 _ hr [symmetric]]
    by (simp add: bx default_headroom_ratio_def)
qed

section \<open>Properties of the Hamming distance\<close>

lemma bit_count_0: "bit_count 0 = 0"
  by (simp add: bit_count.simps)

lemma int_base16_empty: "int_base16 [] = Inl ValueError"
  by (simp add: int_base16_def strip_sign_def strip_prefix16_def)

lemma int_base16_error: "int_base16 h = Inl e \<Longrightarrow> e = ValueError"
  by (auto simp: int_base16_def Let_def split: prod.splits list.splits if_splits option.splits)

lemma hamming_distance_invalid_left: "int_base16 h1 = Inl e \<Longrightarrow> hamming_distance h1 h2 = 999"
  by (simp add: hamming_distance_def)

lemma hamming_distance_invalid_right: "int_base16 h2 = Inl e \<Longrightarrow> hamming_distance h1 h2 = 999"
  by (simp add: hamming_distance_def split: sum.splits)

lemma hamming_distance_valid_self: "int_base16 h = Inr v \<Longrightarrow> hamming_distance h h = 0"
  by (simp add: hamming_distance_def bin_count_ones_def bit_count_0)

lemma int_base16_sample: "int_base16 ''8f37c1e0a5b2d694'' = Inr 0x8f37c1e0a5b2d694"
  by (simp add: int_base16_def strip_sign_def strip_prefix16_def py_isspace_def hex_digit_def)

text \<open>
  Claim C5, as amended. The Hamming distance is symmetric for all strings. For a string
  that \<open>int(h, 16)\<close> accepts, the distance of the string to itself is 0 and
  \<open>are_similar(h, h, threshold)\<close> holds for every threshold \<open>\<ge> 0\<close>.
\<close>

theorem hamming_distance_symmetric_zero_on_valid:
  "hamming_distance h1 h2 = hamming_distance h2 h1
   \<and> (int_base16 h = Inr v \<longrightarrow>
        hamming_distance h h = 0
        \<and> (0 \<le> threshold \<longrightarrow> are_similar h h threshold hash_type))"
proof -
  have "hamming_distance h1 h2 = hamming_distance h2 h1"
    by (simp add: hamming_distance_def xor.commute split: sum.splits)
  then show ?thesis
    by (simp add: are_similar_def hamming_distance_valid_self)
qed

theorem hamming_distance_symmetric_zero_on_valid_witness:
  "int_base16 ''8f37c1e0a5b2d694'' = Inr 0x8f37c1e0a5b2d694
   \<and> hamming_distance ''8f37c1e0a5b2d694'' ''8f37c1e0a5b2d694'' = 0
   \<and> (0::int) \<le> 10
   \<and> are_similar ''8f37c1e0a5b2d694'' ''8f37c1e0a5b2d694'' 10 ''phash''"
  using hamming_distance_symmetric_zero_on_valid
    [of _ _ "''8f37c1e0a5b2d694''" "0x8f37c1e0a5b2d694" 10 "''phash''"]
    int_base16_sample
  by simp

text \<open>
  The claim as stated fails at the empty string, the hash that \<open>compute_hashes\<close> returns
  when it fails: its distance to itself is 999, and it is not similar to itself at the
  default threshold.
\<close>

theorem hamming_distance_self_counterexample:
  "hamming_distance [] [] \<noteq> 0 \<and> \<not> are_similar [] [] 10 ''phash''"
  by (simp add: are_similar_def hamming_distance_def int_base16_empty)

text \<open>
  Claim C10. When \<open>int(h, 16)\<close> rejects either argument, \<open>hamming_distance\<close> returns 999
  (it does not raise); so a rejected string is not similar to itself for any threshold
  below 999. The empty strings of a failed \<open>compute_hashes\<close> are rejected.
\<close>

theorem hamming_distance_sentinel:
  "(isl (int_base16 h1) \<or> isl (int_base16 h2) \<longrightarrow> hamming_distance h1 h2 = 999)
   \<and> (isl (int_base16 h) \<and> threshold < 999 \<longrightarrow> \<not> are_similar h h threshold hash_type)
   \<and> isl (int_base16 (phash failed_hashes)) \<and> isl (int_base16 (dhash failed_hashes))"
  by (auto simp: are_similar_def hamming_distance_def failed_hashes_def int_base16_empty
           split: sum.splits)

theorem hamming_distance_sentinel_witness:
  "isl (int_base16 '''') \<and> hamming_distance '''' ''8f37c1e0a5b2d694'' = 999
   \<and> (10::int) < 999 \<and> \<not> are_similar '''' '''' 10 ''phash''"
  using hamming_distance_sentinel [of "''''" "''8f37c1e0a5b2d694''" "''''" 10 "''phash''"]
  by (simp add: int_base16_empty)

section \<open>Scene clustering needs two embeddings\<close>

text \<open>
  Claim C9. \<open>cluster_scenes\<close> returns no cluster when fewer than two records have a
  non-empty image embedding, whatever the similarity threshold (and whatever the density
  clustering would answer).
\<close>

theorem cluster_scenes_needs_two_embeddings:
  "length (filter (\<lambda>p. image_embedding p \<noteq> []) photo_results) < 2
   \<Longrightarrow> cluster_scenes dbscan photo_results similarity_threshold = []"
  by (simp add: cluster_scenes_def)

theorem cluster_scenes_needs_two_embeddings_witness:
  "length (filter (\<lambda>p. image_embedding p \<noteq> [])
            [sample_photo ''a.jpg'' ''00'' ''00'' [1, 0] [],
             sample_photo ''b.jpg'' ''00'' ''00'' [] []]) < 2
   \<and> cluster_scenes (\<lambda>eps embeddings. map (\<lambda>e. 0) embeddings)
        [sample_photo ''a.jpg'' ''00'' ''00'' [1, 0] [],
         sample_photo ''b.jpg'' ''00'' ''00'' [] []] (85 / 100) = []"
proof -
  have h: "length (filter (\<lambda>p. image_embedding p \<noteq> [])
            [sample_photo ''a.jpg'' ''00'' ''00'' [1, 0] [],
             sample_photo ''b.jpg'' ''00'' ''00'' [] []]) < 2"
    by (simp add: sample_photo_def)
  show ?thesis
    by (intro conjI h cluster_scenes_needs_two_embeddings [OF h])
qed

section \<open>Near-duplicate clustering is the greedy seed grouping\<close>

lemma hamming_distance_commute: "hamming_distance h1 h2 = hamming_distance h2 h1"
  by (simp add: hamming_distance_def xor.commute split: sum.splits)

lemma joins_seed_commute: "joins_seed t p q = joins_seed t q p"
  by (simp add: joins_seed_def hamming_distance_commute [of "phash (hashes p)"]
        hamming_distance_commute [of "dhash (hashes p)"])

text \<open>
  The inner loop appends the later records that are not yet processed and join the seed.
\<close>

lemma near_duplicates_scan_filter:
  assumes "distinct (map filename rest)"
  shows "near_duplicates_scan seed t rest (cluster, processed) =
          (cluster @ map filename (filter (\<lambda>p. filename p \<notin> processed \<and> joins_seed t seed p) rest),
           processed \<union> filename ` set (filter (\<lambda>p. filename p \<notin> processed \<and> joins_seed t seed p) rest))"
  using assms
proof (induction rest arbitrary: cluster processed)
  case Nil
  then show ?case by simp
next
  case (Cons photo2 rest)
  have d: "distinct (map filename rest)"
    using Cons.prems by simp
  have fresh: "\<forall>p \<in> set rest. filename p \<noteq> filename photo2"
  proof
    fix p assume "p \<in> set rest"
    then have "filename p \<in> filename ` set rest" by (rule imageI)
    moreover have "filename photo2 \<notin> filename ` set rest" using Cons.prems by simp
    ultimately show "filename p \<noteq> filename photo2" by metis
  qed
  show ?case
  proof (cases "filename photo2 \<notin> processed \<and> joins_seed t seed photo2")
    case False
    then show ?thesis
      using Cons.IH [OF d, of cluster processed] by (auto simp: joins_seed_def Let_def)
  next
    case True
    define joined where
      "joined = filter (\<lambda>p. filename p \<notin> processed \<and> joins_seed t seed p) rest"
    have same: "filter (\<lambda>p. filename p \<notin> insert (filename photo2) processed \<and> joins_seed t seed p) rest
              = joined"
      unfolding joined_def using fresh by (intro filter_cong) auto
    have step: "near_duplicates_scan seed t (photo2 # rest) (cluster, processed)
            = near_duplicates_scan seed t rest
                (cluster @ [filename photo2], insert (filename photo2) processed)"
      using True by (auto simp: joins_seed_def Let_def)
    have ih: "near_duplicates_scan seed t rest
                (cluster @ [filename photo2], insert (filename photo2) processed)
            = ((cluster @ [filename photo2]) @ map filename joined,
               insert (filename photo2) processed \<union> filename ` set joined)"
      using Cons.IH [OF d, of "cluster @ [filename photo2]" "insert (filename photo2) processed"]
      unfolding same .
    have full: "filter (\<lambda>p. filename p \<notin> processed \<and> joins_seed t seed p) (photo2 # rest)
              = photo2 # joined"
      using True by (simp add: joined_def)
    show ?thesis unfolding full step ih by simp
  qed
qed

lemma near_duplicates_loop_greedy:
  assumes "distinct (map filename xs)"
  shows "near_duplicates_loop t xs (clusters, processed)
           = clusters @ greedy_seed_groups t (filter (\<lambda>p. filename p \<notin> processed) xs)"
  using assms
proof (induction xs arbitrary: clusters processed)
  case Nil
  then show ?case by simp
next
  case (Cons photo1 rest)
  have d: "distinct (map filename rest)"
    using Cons.prems by simp
  have fresh: "\<forall>p \<in> set rest. filename p \<noteq> filename photo1"
  proof
    fix p assume "p \<in> set rest"
    then have "filename p \<in> filename ` set rest" by (rule imageI)
    moreover have "filename photo1 \<notin> filename ` set rest" using Cons.prems by simp
    ultimately show "filename p \<noteq> filename photo1" by metis
  qed
  have inj: "inj_on filename (set rest)"
    using d by (simp add: distinct_map)
  show ?case
  proof (cases "filename photo1 \<in> processed")
    case True
    then show ?thesis using Cons.IH [OF d] by simp
  next
    case False
    define members where
      "members = filter (\<lambda>p. filename p \<notin> processed \<and> joins_seed t photo1 p) rest"
    define processed' where
      "processed' = insert (filename photo1) processed \<union> filename ` set members"
    define clusters' where
      "clusters' = (if members = [] then clusters
                    else clusters @ [map filename (photo1 # members)])"
    have same: "filter (\<lambda>p. filename p \<notin> insert (filename photo1) processed \<and> joins_seed t photo1 p) rest
              = members"
      unfolding members_def using fresh by (intro filter_cong) auto
    have scan: "near_duplicates_scan photo1 t rest ([filename photo1], insert (filename photo1) processed)
                  = (filename photo1 # map filename members, processed')"
      using near_duplicates_scan_filter
              [OF d, of photo1 t "[filename photo1]" "insert (filename photo1) processed"]
      unfolding same processed'_def by simp
    have step: "near_duplicates_loop t (photo1 # rest) (clusters, processed)
                  = near_duplicates_loop t rest (clusters', processed')"
      using False by (simp add: scan clusters'_def)
    have "\<And>p. p \<in> set rest \<Longrightarrow>
            (filename p \<notin> processed') = (filename p \<notin> processed \<and> \<not> joins_seed t photo1 p)"
    proof -
      fix p assume p: "p \<in> set rest"
      have "filename p \<in> filename ` set members \<longleftrightarrow> p \<in> set members"
        using inj p by (auto simp: members_def inj_on_def)
      then show "(filename p \<notin> processed') = (filename p \<notin> processed \<and> \<not> joins_seed t photo1 p)"
        using fresh p by (auto simp: processed'_def members_def)
    qed
    then have remaining: "filter (\<lambda>p. filename p \<notin> processed') rest
        = filter (\<lambda>p. filename p \<notin> processed \<and> \<not> joins_seed t photo1 p) rest"
      by (simp cong: filter_cong)
    have lhs: "near_duplicates_loop t (photo1 # rest) (clusters, processed)
        = clusters' @ greedy_seed_groups t
            (filter (\<lambda>p. filename p \<notin> processed \<and> \<not> joins_seed t photo1 p) rest)"
      by (simp only: step Cons.IH [OF d] remaining)
    have rhs: "greedy_seed_groups t (filter (\<lambda>p. filename p \<notin> processed) (photo1 # rest))
        = (if members = [] then [] else [map filename (photo1 # members)])
          @ greedy_seed_groups t
              (filter (\<lambda>p. filename p \<notin> processed \<and> \<not> joins_seed t photo1 p) rest)"
      using False by (simp add: Let_def members_def)
    show ?thesis unfolding lhs rhs by (simp add: clusters'_def)
  qed
qed


text \<open>
  Claim C4. For records with pairwise distinct filenames, \<open>cluster_near_duplicates\<close> is
  the greedy seed grouping: in list order, each record that no earlier cluster took
  seeds a cluster, which takes exactly the later untaken records whose phash distance or
  dhash distance to the seed is at most the threshold, and a cluster of the seed alone is
  left out. In particular, for three such records of which two are at distance 2 from
  each other and the third at distance 40 from both, the threshold 10 yields exactly one
  cluster, of the two near records, wherever the third record stands in the list.
\<close>

theorem cluster_near_duplicates_greedy:
  "(distinct (map filename photo_results) \<longrightarrow>
      cluster_near_duplicates photo_results hash_threshold
        = greedy_seed_groups hash_threshold photo_results)
   \<and> (distinct [filename a, filename b, filename c]
       \<and> hamming_distance (phash (hashes a)) (phash (hashes b)) = 2
       \<and> hamming_distance (dhash (hashes a)) (dhash (hashes b)) = 2
       \<and> hamming_distance (phash (hashes a)) (phash (hashes c)) = 40
       \<and> hamming_distance (dhash (hashes a)) (dhash (hashes c)) = 40
       \<and> hamming_distance (phash (hashes b)) (phash (hashes c)) = 40
       \<and> hamming_distance (dhash (hashes b)) (dhash (hashes c)) = 40 \<longrightarrow>
         cluster_near_duplicates [a, b, c] 10 = [[filename a, filename b]]
         \<and> cluster_near_duplicates [a, c, b] 10 = [[filename a, filename b]]
         \<and> cluster_near_duplicates [c, a, b] 10 = [[filename a, filename b]])"
proof -
  have refine: "\<And>xs t. distinct (map filename xs) \<Longrightarrow>
      cluster_near_duplicates xs t = greedy_seed_groups t xs"
    unfolding cluster_near_duplicates_def
    using near_duplicates_loop_greedy [of _ _ "[]" "{}"] by simp
  have scenario: "cluster_near_duplicates [a, b, c] 10 = [[filename a, filename b]]
         \<and> cluster_near_duplicates [a, c, b] 10 = [[filename a, filename b]]
         \<and> cluster_near_duplicates [c, a, b] 10 = [[filename a, filename b]]"
    if d: "distinct [filename a, filename b, filename c]"
      and ab: "hamming_distance (phash (hashes a)) (phash (hashes b)) = 2"
              "hamming_distance (dhash (hashes a)) (dhash (hashes b)) = 2"
      and ac: "hamming_distance (phash (hashes a)) (phash (hashes c)) = 40"
              "hamming_distance (dhash (hashes a)) (dhash (hashes c)) = 40"
      and bc: "hamming_distance (phash (hashes b)) (phash (hashes c)) = 40"
              "hamming_distance (dhash (hashes b)) (dhash (hashes c)) = 40"
  proof -
    have j: "joins_seed 10 a b" "\<not> joins_seed 10 a c" "\<not> joins_seed 10 b c"
      by (simp_all add: joins_seed_def ab ac bc)
    have j': "\<not> joins_seed 10 c a" "\<not> joins_seed 10 c b"
      using j(2,3) by (simp_all add: joins_seed_commute [of _ c])
    have d1: "distinct (map filename [a, b, c])" "distinct (map filename [a, c, b])"
      "distinct (map filename [c, a, b])"
      using d by auto
    show ?thesis
      by (simp add: refine [OF d1(1)] refine [OF d1(2)] refine [OF d1(3)] j j')
  qed
  show ?thesis using refine scenario by blast
qed

lemma int_base16_samples:
  "int_base16 ''0000000000000000'' = Inr 0"
  "int_base16 ''0000000000000003'' = Inr 3"
  "int_base16 ''000001fffffffffd'' = Inr 0x1fffffffffd"
  by (simp_all add: int_base16_def strip_sign_def strip_prefix16_def py_isspace_def hex_digit_def)

lemma bit_count_numeral [simp]:
  "bit_count (numeral (Num.Bit0 n)) = bit_count (numeral n)"
  "bit_count (numeral (Num.Bit1 n)) = Suc (bit_count (numeral n))"
  "bit_count (Suc 0) = Suc 0"
proof -
  have b0: "numeral (Num.Bit0 n) = 2 * (numeral n :: nat)"
    by (simp add: numeral_Bit0 mult_2)
  have b1: "numeral (Num.Bit1 n) = Suc (2 * (numeral n :: nat))"
    by (simp add: numeral_Bit1 mult_2)
  show "bit_count (numeral (Num.Bit0 n)) = bit_count (numeral n)"
    by (subst bit_count.simps) (simp only: b0, simp)
  show "bit_count (numeral (Num.Bit1 n)) = Suc (bit_count (numeral n))"
    by (subst bit_count.simps) (simp only: b1, simp)
  show "bit_count (Suc 0) = Suc 0"
    by (subst bit_count.simps) (simp add: bit_count.simps [of 0])
qed

lemma sample_distances:
  "hamming_distance ''0000000000000000'' ''0000000000000003'' = 2"
  "hamming_distance ''0000000000000000'' ''000001fffffffffd'' = 40"
  "hamming_distance ''0000000000000003'' ''000001fffffffffd'' = 40"
  by (simp_all add: hamming_distance_def int_base16_samples bin_count_ones_def)

lemma sample_fields:
  "filename near_photo_a = ''a.jpg''" "filename near_photo_b = ''b.jpg''"
  "filename distinct_photo_c = ''c.jpg''"
  "hashes near_photo_a = \<lparr>phash = ''0000000000000000'', dhash = ''0000000000000000''\<rparr>"
  "hashes near_photo_b = \<lparr>phash = ''0000000000000003'', dhash = ''0000000000000003''\<rparr>"
  "hashes distinct_photo_c = \<lparr>phash = ''000001fffffffffd'', dhash = ''000001fffffffffd''\<rparr>"
  by (simp_all add: near_photo_a_def near_photo_b_def distinct_photo_c_def sample_photo_def)

theorem cluster_near_duplicates_greedy_witness:
  "distinct (map filename [near_photo_a, distinct_photo_c, near_photo_b])
   \<and> cluster_near_duplicates [near_photo_a, distinct_photo_c, near_photo_b] 10
       = greedy_seed_groups 10 [near_photo_a, distinct_photo_c, near_photo_b]
   \<and> hamming_distance (phash (hashes near_photo_a)) (phash (hashes near_photo_b)) = 2
   \<and> hamming_distance (phash (hashes near_photo_a)) (phash (hashes distinct_photo_c)) = 40
   \<and> hamming_distance (phash (hashes near_photo_b)) (phash (hashes distinct_photo_c)) = 40
   \<and> cluster_near_duplicates [near_photo_a, near_photo_b, distinct_photo_c] 10 = [[''a.jpg'', ''b.jpg'']]
   \<and> cluster_near_duplicates [near_photo_a, distinct_photo_c, near_photo_b] 10 = [[''a.jpg'', ''b.jpg'']]
   \<and> cluster_near_duplicates [distinct_photo_c, near_photo_a, near_photo_b] 10 = [[''a.jpg'', ''b.jpg'']]"
proof -
  have d: "distinct (map filename [near_photo_a, distinct_photo_c, near_photo_b])"
    by (simp add: sample_fields)
  have h: "distinct [filename near_photo_a, filename near_photo_b, filename distinct_photo_c]
       \<and> hamming_distance (phash (hashes near_photo_a)) (phash (hashes near_photo_b)) = 2
       \<and> hamming_distance (dhash (hashes near_photo_a)) (dhash (hashes near_photo_b)) = 2
       \<and> hamming_distance (phash (hashes near_photo_a)) (phash (hashes distinct_photo_c)) = 40
       \<and> hamming_distance (dhash (hashes near_photo_a)) (dhash (hashes distinct_photo_c)) = 40
       \<and> hamming_distance (phash (hashes near_photo_b)) (phash (hashes distinct_photo_c)) = 40
       \<and> hamming_distance (dhash (hashes near_photo_b)) (dhash (hashes distinct_photo_c)) = 40"
    by (simp add: sample_fields sample_distances)
  note t = cluster_near_duplicates_greedy
    [of "[near_photo_a, distinct_photo_c, near_photo_b]" 10 near_photo_a near_photo_b distinct_photo_c]
  have r: "cluster_near_duplicates [near_photo_a, distinct_photo_c, near_photo_b] 10
       = greedy_seed_groups 10 [near_photo_a, distinct_photo_c, near_photo_b]"
    by (rule t [THEN conjunct1, THEN mp, OF d])
  have s: "cluster_near_duplicates [near_photo_a, near_photo_b, distinct_photo_c] 10
             = [[filename near_photo_a, filename near_photo_b]]
         \<and> cluster_near_duplicates [near_photo_a, distinct_photo_c, near_photo_b] 10
             = [[filename near_photo_a, filename near_photo_b]]
         \<and> cluster_near_duplicates [distinct_photo_c, near_photo_a, near_photo_b] 10
             = [[filename near_photo_a, filename near_photo_b]]"
    by (rule t [THEN conjunct2, THEN mp, OF h])
  show ?thesis
    using d r h s by (simp only: sample_fields)
qed

section \<open>People clustering\<close>

text \<open>
  The invariant of a cluster under construction: the representative is one of the faces
  and no face has a higher quality score.
\<close>

lemma people_scan_invariant:
  assumes "people_scan thr face1 j rest (c, pr) = (c', pr')"
    and "representative_face c \<in> set (cluster_faces c)"
    and "\<forall>f \<in> set (cluster_faces c). cf_quality_score f \<le> cf_quality_score (representative_face c)"
  shows "representative_face c' \<in> set (cluster_faces c')
       \<and> (\<forall>f \<in> set (cluster_faces c'). cf_quality_score f \<le> cf_quality_score (representative_face c'))
       \<and> length (cluster_faces c) \<le> length (cluster_faces c')"
  using assms
proof (induction rest arbitrary: j c pr)
  case Nil
  then show ?case by simp
next
  case (Cons face2 rest)
  show ?case
  proof (cases "j \<notin> pr \<and> face_distance (cf_embedding face1) (cf_embedding face2) \<le> thr")
    case False
    then have "people_scan thr face1 (Suc j) rest (c, pr) = (c', pr')"
      using Cons.prems(1) by (auto simp: Let_def split: if_splits)
    from Cons.IH [OF this Cons.prems(2,3)] show ?thesis .
  next
    case True
    define c1 where "c1 = c\<lparr>photo_filenames := photo_filenames c @ [cf_filename face2],
                             cluster_faces := cluster_faces c @ [face2]\<rparr>"
    define c2 where "c2 = (if cf_quality_score face2 > cf_quality_score (representative_face c1)
                           then c1\<lparr>representative_face := face2\<rparr> else c1)"
    have step: "people_scan thr face1 (Suc j) rest (c2, insert j pr) = (c', pr')"
      using Cons.prems(1) True by (simp add: Let_def c1_def c2_def cong: if_cong)
    have faces2: "cluster_faces c2 = cluster_faces c @ [face2]"
      by (simp add: c2_def c1_def)
    have rep2: "representative_face c2 =
        (if cf_quality_score face2 > cf_quality_score (representative_face c)
         then face2 else representative_face c)"
      by (simp add: c2_def c1_def)
    have in2: "representative_face c2 \<in> set (cluster_faces c2)"
      using Cons.prems(2) by (simp add: faces2 rep2)
    have max2: "\<forall>f \<in> set (cluster_faces c2). cf_quality_score f \<le> cf_quality_score (representative_face c2)"
      using Cons.prems(3) unfolding faces2 rep2 by fastforce
    from Cons.IH [OF step in2 max2] show ?thesis by (simp add: faces2)
  qed
qed

lemma people_loop_invariant:
  assumes "\<forall>c \<in> set clusters. Q c"
    and "\<And>c. representative_face c \<in> set (cluster_faces c)
          \<Longrightarrow> (\<forall>f \<in> set (cluster_faces c). cf_quality_score f \<le> cf_quality_score (representative_face c))
          \<Longrightarrow> 2 \<le> length (cluster_faces c) \<Longrightarrow> Q c"
  shows "\<forall>c \<in> set (people_loop thr i fs (clusters, pr)). Q c"
  using assms(1)
proof (induction fs arbitrary: i clusters pr)
  case Nil
  then show ?case by simp
next
  case (Cons face1 rest)
  show ?case
  proof (cases "i \<in> pr")
    case True
    then show ?thesis using Cons.IH [OF Cons.prems] by simp
  next
    case False
    define c0 where "c0 = \<lparr>person_id = length clusters, photo_filenames = [cf_filename face1],
                           cluster_faces = [face1], representative_face = face1\<rparr>"
    obtain c' pr' where scan: "people_scan thr face1 (Suc i) rest (c0, insert i pr) = (c', pr')"
      by (cases "people_scan thr face1 (Suc i) rest (c0, insert i pr)") blast
    have inv: "representative_face c' \<in> set (cluster_faces c')
       \<and> (\<forall>f \<in> set (cluster_faces c'). cf_quality_score f \<le> cf_quality_score (representative_face c'))"
      using people_scan_invariant [OF scan] by (simp add: c0_def)
    define clusters' where "clusters' = (if length (cluster_faces c') > 1 then clusters @ [c'] else clusters)"
    have all: "\<forall>c \<in> set clusters'. Q c"
      using Cons.prems inv assms(2) [of c'] by (auto simp: clusters'_def)
    have "people_loop thr i (face1 # rest) (clusters, pr) = people_loop thr (Suc i) rest (clusters', pr')"
      using False scan by (simp add: Let_def c0_def [symmetric] clusters'_def)
    then show ?thesis using Cons.IH [OF all] by simp
  qed
qed

text \<open>
  Claim C8. In every cluster that \<open>cluster_people\<close> returns, the representative face is
  one of the faces of the cluster, its quality score is at least that of each face of
  the cluster, and the cluster has at least two faces.
\<close>

theorem cluster_people_representative:
  "c \<in> set (cluster_people photo_results face_distance_threshold)
   \<Longrightarrow> representative_face c \<in> set (cluster_faces c)
       \<and> (\<forall>f \<in> set (cluster_faces c). cf_quality_score f \<le> cf_quality_score (representative_face c))
       \<and> 2 \<le> length (cluster_faces c)"
proof -
  assume c: "c \<in> set (cluster_people photo_results face_distance_threshold)"
  let ?Q = "\<lambda>c. representative_face c \<in> set (cluster_faces c)
       \<and> (\<forall>f \<in> set (cluster_faces c). cf_quality_score f \<le> cf_quality_score (representative_face c))
       \<and> 2 \<le> length (cluster_faces c)"
  have "\<forall>c \<in> set (people_loop face_distance_threshold 0 (collect_faces photo_results) ([], {})). ?Q c"
    by (rule people_loop_invariant) simp_all
  then show ?thesis using c by (auto simp: cluster_people_def Let_def split: if_splits)
qed

lemma face_distance_same: "face_distance [0, 1] [0, 1] = 0"
  by (simp add: face_distance_def)

lemma face_distance_far: "face_distance [0, 1] [3, 5] = 5"
proof -
  have "face_distance [0, 1] [3, 5] = sqrt (5\<^sup>2)"
    by (simp add: face_distance_def)
  then show ?thesis by simp
qed

lemma sample_people_clusters:
  "cluster_people sample_people_photos (6 / 10) =
     [\<lparr>person_id = 0, photo_filenames = [''a.jpg'', ''b.jpg''],
       cluster_faces =
         [\<lparr>cf_filename = ''a.jpg'', cf_embedding = [0, 1],
           cf_box = \<lparr>box_x = 100, box_y = 100, box_width = 200, box_height = 200\<rparr>,
           cf_quality_score = 1 / 2, cf_confidence = 1\<rparr>,
          \<lparr>cf_filename = ''b.jpg'', cf_embedding = [0, 1],
           cf_box = \<lparr>box_x = 100, box_y = 100, box_width = 200, box_height = 200\<rparr>,
           cf_quality_score = 7 / 10, cf_confidence = 1\<rparr>],
       representative_face =
          \<lparr>cf_filename = ''b.jpg'', cf_embedding = [0, 1],
           cf_box = \<lparr>box_x = 100, box_y = 100, box_width = 200, box_height = 200\<rparr>,
           cf_quality_score = 7 / 10, cf_confidence = 1\<rparr>\<rparr>]"
  by (simp add: cluster_people_def collect_faces_def sample_people_photos_def sample_photo_def
        sample_encoding_def Let_def face_distance_same face_distance_far)

theorem cluster_people_representative_witness:
  "hd (cluster_people sample_people_photos (6 / 10)) \<in> set (cluster_people sample_people_photos (6 / 10))
   \<and> representative_face (hd (cluster_people sample_people_photos (6 / 10)))
       \<in> set (cluster_faces (hd (cluster_people sample_people_photos (6 / 10))))
   \<and> cf_quality_score (hd (cluster_faces (hd (cluster_people sample_people_photos (6 / 10)))))
       \<le> cf_quality_score (representative_face (hd (cluster_people sample_people_photos (6 / 10))))
   \<and> 2 \<le> length (cluster_faces (hd (cluster_people sample_people_photos (6 / 10))))"
proof -
  have h: "hd (cluster_people sample_people_photos (6 / 10))
             \<in> set (cluster_people sample_people_photos (6 / 10))"
    unfolding sample_people_clusters by simp
  have m: "hd (cluster_faces (hd (cluster_people sample_people_photos (6 / 10))))
             \<in> set (cluster_faces (hd (cluster_people sample_people_photos (6 / 10))))"
    unfolding sample_people_clusters by simp
  show ?thesis
    using h m cluster_people_representative [OF h] by blast
qed

section \<open>The batch loop keeps the checkpoint in lock-step\<close>

lemma process_photo_filepath: "process_photo env p = Some r \<Longrightarrow> filepath r = p"
  by (auto simp: process_photo_def Let_def split: option.splits prod.splits sum.splits if_splits)

text \<open>One photo: both containers grow, or neither does.\<close>

lemma process_batch_single:
  "process_batch env [p] (batch_results, processed) =
     (case process_photo env p of
        Some r \<Rightarrow> (batch_results @ [r], insert p processed)
      | None \<Rightarrow> (batch_results, processed))"
  by (simp split: option.splits)

text \<open>
  A whole batch: the new records are those of the paths that succeeded, in order, and
  exactly these paths join the processed set.
\<close>

lemma process_batch_result:
  "process_batch env batch (batch_results, processed) = (batch_results', processed')
   \<Longrightarrow> \<exists>new. batch_results' = batch_results @ new
             \<and> map filepath new = filter (\<lambda>p. process_photo env p \<noteq> None) batch
             \<and> processed' = processed \<union> set (map filepath new)"
proof (induction batch arbitrary: batch_results processed)
  case Nil
  then show ?case by simp
next
  case (Cons p rest)
  show ?case
  proof (cases "process_photo env p")
    case None
    then have "process_batch env rest (batch_results, processed) = (batch_results', processed')"
      using Cons.prems by simp
    from Cons.IH [OF this] show ?thesis using None by simp
  next
    case (Some r)
    then have "process_batch env rest (batch_results @ [r], insert p processed)
                 = (batch_results', processed')"
      using Cons.prems by simp
    from Cons.IH [OF this] obtain new where
      n: "batch_results' = (batch_results @ [r]) @ new"
         "map filepath new = filter (\<lambda>p. process_photo env p \<noteq> None) rest"
         "processed' = insert p processed \<union> set (map filepath new)"
      by blast
    have fp: "filepath r = p" using Some by (rule process_photo_filepath)
    show ?thesis
      using n Some fp by (intro exI [of _ "r # new"]) auto
  qed
qed

lemma batch_step_lock_step:
  assumes "lock_step st" "distinct batch" "set batch \<inter> processed_files st = {}"
    and "process_batch env batch ([], processed_files st) = (batch_results, processed)"
  shows "lock_step \<lparr>processed_files = processed, results = results st @ batch_results\<rparr>"
proof -
  obtain new where n: "batch_results = [] @ new"
      "map filepath new = filter (\<lambda>p. process_photo env p \<noteq> None) batch"
      "processed = processed_files st \<union> set (map filepath new)"
    using process_batch_result [OF assms(4)] by blast
  have d: "distinct (map filepath new)" using assms(2) by (simp add: n(2))
  have s: "set (map filepath new) \<subseteq> set batch" by (auto simp: n(2))
  show ?thesis
    using assms(1,3) d s n(1,3) by (auto simp: lock_step_def)
qed

lemma batch_loop_lock_step:
  assumes "distinct image_files" "lock_step st" "list_all lock_step written"
    and "batch_loop env batch_size image_files st written = (st', written')"
  shows "lock_step st' \<and> list_all lock_step written'"
  using assms
proof (induction env batch_size image_files st written rule: batch_loop.induct)
  case (1 env batch_size image_files st written)
  show ?case
  proof (cases "image_files = [] \<or> batch_size = 0")
    case True
    then show ?thesis using "1.prems" by (simp add: batch_loop.simps [of env batch_size image_files])
  next
    case False
    define batch where "batch = filter (\<lambda>f. f \<notin> processed_files st) (take batch_size image_files)"
    have dl: "distinct (drop batch_size image_files)" using "1.prems"(1) by simp
    show ?thesis
    proof (cases "batch = []")
      case True
      then have "batch_loop env batch_size (drop batch_size image_files) st written = (st', written')"
        using "1.prems"(4) False
        by (simp add: batch_loop.simps [of env batch_size image_files] batch_def Let_def)
      from "1.IH"(1) [OF False refl refl refl True [unfolded batch_def] dl "1.prems"(2,3) this]
      show ?thesis .
    next
      case nonempty: False
      obtain batch_results processed where
        pb: "process_batch env batch ([], processed_files st) = (batch_results, processed)"
        by (cases "process_batch env batch ([], processed_files st)") blast
      define st1 where "st1 = \<lparr>processed_files = processed, results = results st @ batch_results\<rparr>"
      have db: "distinct batch" using "1.prems"(1) by (simp add: batch_def)
      have disj: "set batch \<inter> processed_files st = {}" by (auto simp: batch_def)
      have l1: "lock_step st1"
        unfolding st1_def by (rule batch_step_lock_step [OF "1.prems"(2) db disj pb])
      have w1: "list_all lock_step (written @ [st1])" using "1.prems"(3) l1 by simp
      have step: "batch_loop env batch_size (drop batch_size image_files) st1 (written @ [st1])
                    = (st', written')"
        using "1.prems"(4) False nonempty pb
        by (simp add: batch_loop.simps [of env batch_size image_files] batch_def [symmetric]
              Let_def st1_def)
      from "1.IH"(2) [OF False refl refl refl nonempty [unfolded batch_def]
            pb [unfolded batch_def, symmetric] refl refl refl dl l1 [unfolded st1_def]
            w1 [unfolded st1_def] step [unfolded st1_def]]
      show ?thesis .
    qed
  qed
qed


lemma lock_step_empty: "lock_step empty_checkpoint"
  by (simp add: lock_step_def empty_checkpoint_def)

text \<open>
  Claim C7. Handling one photo either appends its record (whose \<open>filepath\<close> is the path)
  and adds the path to the processed set, or changes neither. Hence, for a list of
  distinct discovered paths and a start state in lock-step (the empty one is), every
  checkpoint that the batch loop writes is in lock-step, and so is the final state: the
  paths of the records are pairwise distinct and are exactly the processed files.
\<close>

theorem checkpoint_lock_step:
  assumes "distinct image_files" "lock_step st"
    and "run_batches env batch_size image_files st = Inr (st', written)"
  shows "lock_step st' \<and> list_all lock_step written \<and> lock_step empty_checkpoint
       \<and> (case process_photo env p of
            Some r \<Rightarrow> filepath r = p
              \<and> process_batch env [p] (batch_results, processed)
                  = (batch_results @ [r], insert p processed)
          | None \<Rightarrow> process_batch env [p] (batch_results, processed) = (batch_results, processed))"
proof -
  have loop: "lock_step st' \<and> list_all lock_step written"
  proof (cases "batch_size < 0")
    case True
    then show ?thesis using assms(2,3) by (simp add: run_batches_def split: if_splits)
  next
    case False
    then have "batch_loop env (nat batch_size) image_files st [] = (st', written)"
      using assms(3) by (simp add: run_batches_def split: if_splits)
    from batch_loop_lock_step [OF assms(1,2) _ this] show ?thesis by simp
  qed
  have single: "case process_photo env p of
            Some r \<Rightarrow> filepath r = p
              \<and> process_batch env [p] (batch_results, processed)
                  = (batch_results @ [r], insert p processed)
          | None \<Rightarrow> process_batch env [p] (batch_results, processed) = (batch_results, processed)"
    by (simp add: process_photo_filepath split: option.splits)
  show ?thesis using loop single lock_step_empty by blast
qed

lemma calculate_smart_crop_returns:
  assumes "0 < w" "0 < h" "0 < tw" "0 < th"
  shows "\<exists>r. calculate_smart_crop path (tw, th) fs ps w h hr = Inr r"
proof -
  obtain cw ch where "crop_dimensions (tw, th) w h = Inr (cw, ch)"
    "0 \<le> cw" "cw \<le> w" "0 \<le> ch" "ch \<le> h"
    using crop_dimensions_cases [OF assms] by blast
  from calculate_smart_crop_box [OF this] show ?thesis by blast
qed

lemma smart_crops_returns:
  assumes "0 < w" "0 < h" "list_all (\<lambda>(rw, rh). 0 < rw \<and> 0 < rh) ratios"
  shows "\<exists>cs. smart_crops path fs ps w h ratios = Inr cs"
  using assms(3)
proof (induction ratios)
  case Nil
  then show ?case by simp
next
  case (Cons ratio ratios)
  obtain rw rh where ratio: "ratio = (rw, rh)" by (cases ratio)
  have pos: "(0::rat) < of_nat rw" "(0::rat) < of_nat rh"
    using Cons.prems by (simp_all add: ratio)
  obtain r where r: "calculate_smart_crop path (of_nat rw, of_nat rh) fs ps w h
                       default_headroom_ratio = Inr r"
    using calculate_smart_crop_returns [OF assms(1,2) pos] by blast
  obtain cs where cs: "smart_crops path fs ps w h ratios = Inr cs"
    using Cons.IH Cons.prems by auto
  show ?case by (simp add: ratio r cs)
qed

lemma sample_ok: "p \<noteq> ''bad.jpg'' \<Longrightarrow> process_photo sample_env p \<noteq> None"
proof -
  assume p: "p \<noteq> ''bad.jpg''"
  obtain cs where cs: "smart_crops p [] [] 1920 1080 ASPECT_RATIOS = Inr cs"
    using smart_crops_returns [of 1920 1080 ASPECT_RATIOS p "[]" "[]"]
    by (auto simp: ASPECT_RATIOS_def)
  show ?thesis
    using p by (simp add: process_photo_def sample_env_def Let_def cs)
qed

lemma sample_bad: "process_photo sample_env ''bad.jpg'' = None"
  by (simp add: process_photo_def sample_env_def)

theorem checkpoint_lock_step_witness:
  "distinct [''a.jpg'', ''bad.jpg'', ''b.jpg''] \<and> lock_step empty_checkpoint
   \<and> run_batches sample_env 2 [''a.jpg'', ''bad.jpg'', ''b.jpg''] empty_checkpoint
       = Inr (fst (batch_loop sample_env 2 [''a.jpg'', ''bad.jpg'', ''b.jpg''] empty_checkpoint []),
              snd (batch_loop sample_env 2 [''a.jpg'', ''bad.jpg'', ''b.jpg''] empty_checkpoint []))
   \<and> lock_step (fst (batch_loop sample_env 2 [''a.jpg'', ''bad.jpg'', ''b.jpg''] empty_checkpoint []))
   \<and> list_all lock_step (snd (batch_loop sample_env 2 [''a.jpg'', ''bad.jpg'', ''b.jpg''] empty_checkpoint []))
   \<and> process_batch sample_env [''bad.jpg''] ([], {}) = ([], {})"
proof -
  have d: "distinct [''a.jpg'', ''bad.jpg'', ''b.jpg'']" by simp
  have r: "run_batches sample_env 2 [''a.jpg'', ''bad.jpg'', ''b.jpg''] empty_checkpoint
       = Inr (fst (batch_loop sample_env 2 [''a.jpg'', ''bad.jpg'', ''b.jpg''] empty_checkpoint []),
              snd (batch_loop sample_env 2 [''a.jpg'', ''bad.jpg'', ''b.jpg''] empty_checkpoint []))"
    by (simp add: run_batches_def)
  have e: "lock_step empty_checkpoint"
    by (simp add: lock_step_def empty_checkpoint_def)
  show ?thesis
    using d r e checkpoint_lock_step [OF d e r, of "''bad.jpg''" "[]" "{}"]
    by (simp add: sample_bad)
qed

text \<open>
  In that run the unreadable photo stays out of both containers: two records, two
  processed files, two checkpoints written (one for each batch of size two).
\<close>

lemma sample_run_result:
  "processed_files (fst (batch_loop sample_env 2 [''a.jpg'', ''bad.jpg'', ''b.jpg''] empty_checkpoint []))
     = {''a.jpg'', ''b.jpg''}
   \<and> map filepath (results (fst (batch_loop sample_env 2 [''a.jpg'', ''bad.jpg'', ''b.jpg''] empty_checkpoint [])))
     = [''a.jpg'', ''b.jpg'']
   \<and> length (snd (batch_loop sample_env 2 [''a.jpg'', ''bad.jpg'', ''b.jpg''] empty_checkpoint [])) = 2"
proof -
  obtain ra where ra: "process_photo sample_env ''a.jpg'' = Some ra"
    using sample_ok [of "''a.jpg''"] by auto
  obtain rb where rb: "process_photo sample_env ''b.jpg'' = Some rb"
    using sample_ok [of "''b.jpg''"] by auto
  have fa: "filepath ra = ''a.jpg''" using ra by (rule process_photo_filepath)
  have fb: "filepath rb = ''b.jpg''" using rb by (rule process_photo_filepath)
  have "batch_loop sample_env 2 [''a.jpg'', ''bad.jpg'', ''b.jpg''] empty_checkpoint [] =
          (\<lparr>processed_files = {''a.jpg'', ''b.jpg''}, results = [ra, rb]\<rparr>,
           [\<lparr>processed_files = {''a.jpg''}, results = [ra]\<rparr>,
            \<lparr>processed_files = {''a.jpg'', ''b.jpg''}, results = [ra, rb]\<rparr>])"
    by (simp add: empty_checkpoint_def ra rb sample_bad Let_def insert_commute)
  then show ?thesis by (simp add: fa fb)
qed

end
